theory Spec2Isabelle
  imports Main
begin

unbundle bit_operations_syntax

section \<open>Constants (constants.h, keyboard.h)\<close>

definition NUM_ROWS :: nat where "NUM_ROWS = 5"

definition NUM_COLS :: nat where "NUM_COLS = 14"

definition MAX_NUM_KEYS :: nat where "MAX_NUM_KEYS = 6"

definition KEY_DUMMY :: int where "KEY_DUMMY = 0"

definition KEY_LSHIFT :: int where "KEY_LSHIFT = - 1"

definition KEY_CTRL :: int where "KEY_CTRL = - 2"

definition KEY_ALT :: int where "KEY_ALT = - 3"

definition KEY_ALTGR :: int where "KEY_ALTGR = - 4"

definition KEY_SUPER :: int where "KEY_SUPER = - 5"

definition KEY_RSHIFT :: int where "KEY_RSHIFT = - 6"

definition KEY_FN :: int where "KEY_FN = - 7"

definition KEY_FN2 :: int where "KEY_FN2 = - 8"

definition NUM_MODIFIERS :: nat where "NUM_MODIFIERS = 6"

text \<open>
  The key codes \<^verbatim>\<open>KEY_A\<close>, \<^verbatim>\<open>KEYPAD_1\<close>, \<^verbatim>\<open>MODIFIERKEY_CTRL\<close>, ... are macros of the
  Teensy core (\<^verbatim>\<open>Arduino.h\<close>), which is not part of the repository. They are taken as
  a parameter: a function from the macro's name to its value.
\<close>

type_synonym keylayouts = "string \<Rightarrow> int"

section \<open>struct Key\<close>

text \<open>
  The three members are C++ \<^verbatim>\<open>int\<close>s. The program never does arithmetic on them that
  could overflow (it compares them, masks them and converts them to \<^verbatim>\<open>uint8_t\<close>), so
  they are modelled as unbounded integers, whatever the width of \<^verbatim>\<open>int\<close> on the target.
\<close>

record key =
  code :: int
  second :: int
  third :: int

text \<open>
  \<^verbatim>\<open>Key::Key()\<close> assigns \<^verbatim>\<open>code\<close> only: \<^verbatim>\<open>second\<close> and \<^verbatim>\<open>third\<close> keep whatever the
  storage of the new object held. The model makes that storage the argument \<open>u\<close> of
  the constructor, so nothing proved below depends on a choice for it.
\<close>

definition Key0 :: "key \<Rightarrow> key" where
  "Key0 u = u\<lparr>code := KEY_DUMMY\<rparr>"

definition Key1 :: "int \<Rightarrow> key" where
  "Key1 c = \<lparr>code = c, second = KEY_DUMMY, third = KEY_DUMMY\<rparr>"

definition Key2 :: "int \<Rightarrow> int \<Rightarrow> key" where
  "Key2 c s = \<lparr>code = c, second = s, third = KEY_DUMMY\<rparr>"

definition Key3 :: "int \<Rightarrow> int \<Rightarrow> int \<Rightarrow> key" where
  "Key3 c s t = \<lparr>code = c, second = s, third = t\<rparr>"

definition is_modifier :: "key \<Rightarrow> bool" where
  "is_modifier k \<longleftrightarrow> code k < 0"

definition is_media :: "key \<Rightarrow> bool" where
  "is_media k \<longleftrightarrow> (0xFF00 AND code k) = 0xE400"

definition is_dummy :: "key \<Rightarrow> bool" where
  "is_dummy k \<longleftrightarrow> code k = KEY_DUMMY"

text \<open>\<^verbatim>\<open>operator==\<close> and \<^verbatim>\<open>operator!=\<close>.\<close>

definition key_eq :: "key \<Rightarrow> key \<Rightarrow> bool" where
  "key_eq a b \<longleftrightarrow> code a = code b \<and> second a = second b"

definition key_neq :: "key \<Rightarrow> key \<Rightarrow> bool" where
  "key_neq a b \<longleftrightarrow> \<not> key_eq a b"

definition is_fn :: "key \<Rightarrow> bool" where
  "is_fn k \<longleftrightarrow> code k = KEY_FN"

definition is_fn2 :: "key \<Rightarrow> bool" where
  "is_fn2 k \<longleftrightarrow> code k = KEY_FN2"

definition has_second :: "key \<Rightarrow> bool" where
  "has_second k \<longleftrightarrow> second k \<noteq> KEY_DUMMY"

definition has_third :: "key \<Rightarrow> bool" where
  "has_third k \<longleftrightarrow> third k \<noteq> KEY_DUMMY"

section \<open>class Board\<close>

text \<open>
  The members of \<^verbatim>\<open>Board\<close> that the functions below read or write. The arrays are
  lists; \<open>wf_board\<close> says that each has its declared size. \<^verbatim>\<open>pressed_media\<close> and
  \<^verbatim>\<open>current_media\<close> are used by keyboard.cpp but not declared in keyboard.h; from
  their uses the first is a \<^verbatim>\<open>Key\<close> and the second holds an \<^verbatim>\<open>int\<close> member of a
  \<^verbatim>\<open>Key\<close> unchanged. The counters are \<^verbatim>\<open>uint8_t\<close>: natural numbers below 256,
  incremented modulo 256.
\<close>

record board =
  fn_pressed :: bool
  fn2_pressed :: bool
  num_keys_pressed :: nat
  num_keys_released :: nat
  tot_num_keys_pressed :: nat
  curr_pressed_keys :: "key list"
  all_pressed_keys :: "key list"
  just_released_keys :: "key list"
  keys_to_send :: "key list"
  codes_to_send :: "int list"
  current_modifier :: int
  pressed_media :: key
  current_media :: int

definition wf_board :: "board \<Rightarrow> bool" where
  "wf_board b \<longleftrightarrow>
     length (curr_pressed_keys b) = MAX_NUM_KEYS \<and>
     length (all_pressed_keys b) = NUM_ROWS * NUM_COLS \<and>
     length (just_released_keys b) = MAX_NUM_KEYS \<and>
     length (keys_to_send b) = MAX_NUM_KEYS \<and>
     length (codes_to_send b) = MAX_NUM_KEYS"

text \<open>
  An access whose index is not bounded by the loop around it is checked against the
  size of the array: outside it the C++ has no defined behaviour, and the model stops
  with the name of the array.
\<close>

datatype fault = All_pressed_overrun | Just_released_overrun | Modifier_map_overrun

text \<open>A \<^verbatim>\<open>for\<close> loop over the indices \<open>xs\<close> whose body may stop the program.\<close>

fun foreach :: "('a \<Rightarrow> 's \<Rightarrow> fault + 's) \<Rightarrow> 'a list \<Rightarrow> 's \<Rightarrow> fault + 's" where
  "foreach f [] s = Inr s"
| "foreach f (x # xs) s = (case f x s of Inl e \<Rightarrow> Inl e | Inr s' \<Rightarrow> foreach f xs s')"

definition incr8 :: "nat \<Rightarrow> nat" where
  "incr8 n = (n + 1) mod 256"

definition uint8 :: "int \<Rightarrow> int" where
  "uint8 x = x mod 256"

subsection \<open>translate_modifier\<close>

definition MODIFIER_MAP :: "keylayouts \<Rightarrow> int list" where
  "MODIFIER_MAP K =
     [K ''MODIFIERKEY_LEFT_SHIFT'', K ''MODIFIERKEY_CTRL'', K ''MODIFIERKEY_LEFT_ALT'',
      K ''MODIFIERKEY_RIGHT_ALT'', K ''MODIFIERKEY_GUI'', K ''MODIFIERKEY_RIGHT_SHIFT'']"

definition modifier_index :: "int \<Rightarrow> int" where
  "modifier_index modifier = - 1 * modifier - 1"

definition translate_modifier :: "keylayouts \<Rightarrow> int \<Rightarrow> fault + int" where
  "translate_modifier K modifier =
     (if modifier \<ge> 0 then Inr (- 1)
      else if 0 \<le> modifier_index modifier \<and> modifier_index modifier < int NUM_MODIFIERS
        then Inr (MODIFIER_MAP K ! nat (modifier_index modifier))
        else Inl Modifier_map_overrun)"

subsection \<open>init, reset_pressed_keys\<close>

text \<open>
  \<^verbatim>\<open>init\<close> also configures the pins; that has no effect on the members. The loops
  assign every cell of an array, in index order.
\<close>

definition fill :: "'a \<Rightarrow> nat \<Rightarrow> 'a list \<Rightarrow> 'a list" where
  "fill v n xs = fold (\<lambda>i ys. ys[i := v]) [0..<n] xs"

definition init :: "key \<Rightarrow> board \<Rightarrow> board" where
  "init u b = b\<lparr>
     fn_pressed := False,
     fn2_pressed := False,
     num_keys_pressed := 0,
     tot_num_keys_pressed := 0,
     current_media := 0,
     curr_pressed_keys := fill (Key0 u) MAX_NUM_KEYS (curr_pressed_keys b),
     keys_to_send := fill (Key0 u) MAX_NUM_KEYS (keys_to_send b),
     codes_to_send := fill 0 MAX_NUM_KEYS (codes_to_send b),
     all_pressed_keys := fill (Key0 u) (NUM_ROWS * NUM_COLS) (all_pressed_keys b)\<rparr>"

text \<open>The second loop of \<^verbatim>\<open>reset_pressed_keys\<close> stops at the first dummy key.\<close>

fun clear_all_pressed :: "key \<Rightarrow> nat list \<Rightarrow> key list \<Rightarrow> key list" where
  "clear_all_pressed u [] a = a"
| "clear_all_pressed u (i # is) a =
     (if is_dummy (a ! i) then a else clear_all_pressed u is (a[i := Key0 u]))"

definition reset_pressed_keys :: "key \<Rightarrow> board \<Rightarrow> board" where
  "reset_pressed_keys u b = b\<lparr>
     curr_pressed_keys := fill (Key0 u) MAX_NUM_KEYS (curr_pressed_keys b),
     just_released_keys := fill (Key0 u) MAX_NUM_KEYS (just_released_keys b),
     all_pressed_keys := clear_all_pressed u [0..<NUM_ROWS * NUM_COLS] (all_pressed_keys b)\<rparr>"

subsection \<open>scan_keys\<close>

text \<open>
  The layout table read by the scan (\<^verbatim>\<open>KEYS[row][col]\<close>) and the state of the switch
  matrix (\<^verbatim>\<open>digitalRead(COL_PINS[col]) == LOW\<close> while row \<^verbatim>\<open>row\<close> is driven low) are
  functions of the row and the column. The table is the parameter \<open>keymap\<close> of the scan;
  the tables of keyboard.h are defined further down, and the scan of the source is the
  scan of \<open>at (KEYS K u)\<close>.
\<close>

type_synonym layout = "nat \<Rightarrow> nat \<Rightarrow> key"

type_synonym matrix = "nat \<Rightarrow> nat \<Rightarrow> bool"

text \<open>The body of the scan for a key found pressed.\<close>

definition scan_key :: "keylayouts \<Rightarrow> key \<Rightarrow> board \<Rightarrow> fault + board" where
  "scan_key K pressed b =
     (if tot_num_keys_pressed b < NUM_ROWS * NUM_COLS then
        let b1 = b\<lparr>all_pressed_keys := (all_pressed_keys b)[tot_num_keys_pressed b := pressed],
                   tot_num_keys_pressed := incr8 (tot_num_keys_pressed b)\<rparr>
        in if is_fn pressed then Inr (b1\<lparr>fn_pressed := True\<rparr>)
           else if is_fn2 pressed then Inr (b1\<lparr>fn2_pressed := True\<rparr>)
           else if is_modifier pressed then
             (case translate_modifier K (code pressed) of
                Inl e \<Rightarrow> Inl e
              | Inr m \<Rightarrow> Inr (b1\<lparr>current_modifier := current_modifier b1 OR m\<rparr>))
           else if is_media pressed then Inr (b1\<lparr>pressed_media := pressed\<rparr>)
           else Inr ((if num_keys_pressed b1 < MAX_NUM_KEYS
                      then b1\<lparr>curr_pressed_keys := (curr_pressed_keys b1)[num_keys_pressed b1 := pressed]\<rparr>
                      else b1)\<lparr>num_keys_pressed := incr8 (num_keys_pressed b1)\<rparr>)
      else Inl All_pressed_overrun)"

definition scan_pos :: "keylayouts \<Rightarrow> layout \<Rightarrow> matrix \<Rightarrow> nat \<Rightarrow> nat \<Rightarrow> board \<Rightarrow> fault + board" where
  "scan_pos K keymap pins row col b =
     (if \<not> is_dummy (keymap row col) then
        if pins row col then scan_key K (keymap row col) b else Inr b
      else Inr b)"

definition scan_keys :: "keylayouts \<Rightarrow> layout \<Rightarrow> matrix \<Rightarrow> board \<Rightarrow> fault + board" where
  "scan_keys K keymap pins b =
     foreach (\<lambda>row. foreach (\<lambda>col. scan_pos K keymap pins row col) [0..<NUM_COLS]) [0..<NUM_ROWS] b"

subsection \<open>remove_released_keys\<close>

text \<open>The inner loop: is \<open>k\<close> among the cells \<open>js\<close> of \<^verbatim>\<open>curr_pressed_keys\<close>?\<close>

fun key_found :: "key \<Rightarrow> key list \<Rightarrow> nat list \<Rightarrow> bool" where
  "key_found k cs [] = False"
| "key_found k cs (j # js) = (if key_eq k (cs ! j) then True else key_found k cs js)"

definition release_slot :: "key \<Rightarrow> nat \<Rightarrow> board \<Rightarrow> fault + board" where
  "release_slot u i b =
     (let k = keys_to_send b ! i in
      if \<not> is_dummy k then
        if \<not> key_found k (curr_pressed_keys b) [0..<MAX_NUM_KEYS] then
          if num_keys_released b < MAX_NUM_KEYS then
            Inr (b\<lparr>just_released_keys := (just_released_keys b)[num_keys_released b := keys_to_send b ! i],
                   keys_to_send := (keys_to_send b)[i := Key0 u],
                   codes_to_send := (codes_to_send b)[i := KEY_DUMMY],
                   num_keys_released := incr8 (num_keys_released b)\<rparr>)
          else Inl Just_released_overrun
        else Inr b
      else Inr b)"

definition remove_released_keys :: "key \<Rightarrow> board \<Rightarrow> fault + board" where
  "remove_released_keys u b = foreach (release_slot u) [0..<MAX_NUM_KEYS] b"

subsection \<open>try_place_key\<close>

text \<open>
  The loop of \<^verbatim>\<open>try_place_key\<close> over the slots \<open>is\<close>, with its two local variables.
  \<open>None\<close> is the \<^verbatim>\<open>return false\<close> inside the loop.
\<close>

fun find_slot :: "key list \<Rightarrow> key \<Rightarrow> nat list \<Rightarrow> nat \<Rightarrow> bool \<Rightarrow> (nat \<times> bool) option" where
  "find_slot ks k [] lowest_free_index found_lowest_index =
     Some (lowest_free_index, found_lowest_index)"
| "find_slot ks k (i # is) lowest_free_index found_lowest_index =
     (if is_dummy (ks ! i) \<and> \<not> found_lowest_index then find_slot ks k is i True
      else if key_eq (ks ! i) k then None
      else find_slot ks k is lowest_free_index found_lowest_index)"

text \<open>The code of \<open>k\<close> under the layer flags, as the local \<^verbatim>\<open>uint8_t code\<close> holds it.\<close>

definition place_code :: "key \<Rightarrow> board \<Rightarrow> int" where
  "place_code k b =
     uint8 (if has_second k \<and> fn_pressed b then second k
            else if has_third k \<and> fn2_pressed b then third k
            else code k)"

definition try_place_key :: "key \<Rightarrow> board \<Rightarrow> bool \<times> board" where
  "try_place_key k b =
     (case find_slot (keys_to_send b) k [0..<MAX_NUM_KEYS] 0 False of
        None \<Rightarrow> (False, b)
      | Some (lowest_free_index, found_lowest_index) \<Rightarrow>
          if \<not> found_lowest_index then (False, b)
          else (True, b\<lparr>keys_to_send := (keys_to_send b)[lowest_free_index := k],
                       codes_to_send := (codes_to_send b)[lowest_free_index := place_code k b]\<rparr>))"

subsection \<open>update_keys_to_send, send_keys, update\<close>

definition place_slot :: "nat \<Rightarrow> board \<Rightarrow> board" where
  "place_slot i b =
     (let k = curr_pressed_keys b ! i in
      if \<not> is_dummy k then snd (try_place_key k b) else b)"

definition set_media :: "board \<Rightarrow> board" where
  "set_media b =
     (if \<not> is_dummy (pressed_media b) then
        if has_second (pressed_media b) \<and> fn_pressed b
        then b\<lparr>current_media := second (pressed_media b)\<rparr>
        else b\<lparr>current_media := code (pressed_media b)\<rparr>
      else b\<lparr>current_media := 0\<rparr>)"

definition update_keys_to_send :: "key \<Rightarrow> board \<Rightarrow> fault + board" where
  "update_keys_to_send u b =
     (case remove_released_keys u b of
        Inl e \<Rightarrow> Inl e
      | Inr b1 \<Rightarrow> Inr (set_media (fold place_slot [0..<MAX_NUM_KEYS] b1)))"

text \<open>
  What \<^verbatim>\<open>send_keys\<close> hands to the USB keyboard object: the six key codes, the
  modifier and the media code.
\<close>

definition send_keys :: "board \<Rightarrow> int list \<times> int \<times> int" where
  "send_keys b = (map (\<lambda>i. codes_to_send b ! i) [0..<MAX_NUM_KEYS], current_modifier b, current_media b)"

text \<open>The assignments of \<^verbatim>\<open>update\<close> before the scan.\<close>

definition begin_cycle :: "key \<Rightarrow> board \<Rightarrow> board" where
  "begin_cycle u b =
     (reset_pressed_keys u b)\<lparr>
        num_keys_pressed := 0,
        num_keys_released := 0,
        tot_num_keys_pressed := 0,
        current_modifier := 0,
        pressed_media := Key0 u,
        fn_pressed := False,
        fn2_pressed := False\<rparr>"

text \<open>
  \<^verbatim>\<open>update\<close>: one cycle. \<^verbatim>\<open>send_keys\<close> changes no member; what it sends is
  \<open>send_keys\<close> of the board returned.
\<close>

definition update :: "keylayouts \<Rightarrow> layout \<Rightarrow> key \<Rightarrow> matrix \<Rightarrow> board \<Rightarrow> fault + board" where
  "update K keymap u pins b =
     (case scan_keys K keymap pins (begin_cycle u b) of
        Inl e \<Rightarrow> Inl e
      | Inr b3 \<Rightarrow> update_keys_to_send u b3)"

text \<open>A sequence of cycles, one state of the switch matrix for each.\<close>

definition cycles :: "keylayouts \<Rightarrow> layout \<Rightarrow> key \<Rightarrow> matrix list \<Rightarrow> board \<Rightarrow> fault + board" where
  "cycles K keymap u ps b = foreach (update K keymap u) ps b"

section \<open>The layout tables of keyboard.h\<close>

text \<open>
  The two tables, row by row. A \<^verbatim>\<open>Key()\<close> entry is a dummy key; the other entries name
  codes of keyboard.h or macros of the Teensy core (looked up in \<open>K\<close>).
\<close>

definition KEYS :: "keylayouts \<Rightarrow> key \<Rightarrow> key list list" where
  "KEYS K u =
    [[Key1 (K ''KEY_BACKSPACE''), Key2 (K ''KEY_EQUAL'') (K ''KEY_F12''),
      Key2 (K ''KEY_MINUS'') (K ''KEY_F11''), Key2 (K ''KEY_0'') (K ''KEY_F10''),
      Key2 (K ''KEY_9'') (K ''KEY_F9''), Key2 (K ''KEY_8'') (K ''KEY_F8''),
      Key2 (K ''KEY_7'') (K ''KEY_F7''), Key2 (K ''KEY_6'') (K ''KEY_F6''),
      Key2 (K ''KEY_5'') (K ''KEY_F5''), Key2 (K ''KEY_4'') (K ''KEY_F4''),
      Key2 (K ''KEY_3'') (K ''KEY_F3''), Key2 (K ''KEY_2'') (K ''KEY_F2''),
      Key2 (K ''KEY_1'') (K ''KEY_F1''), Key2 (K ''KEY_ESC'') (K ''KEY_TILDE'')],
     [Key0 u, Key1 (K ''KEY_RIGHT_BRACE''), Key1 (K ''KEY_LEFT_BRACE''), Key1 (K ''KEY_P''),
      Key1 (K ''KEY_O''), Key1 (K ''KEY_I''), Key1 (K ''KEY_U''), Key1 (K ''KEY_Y''),
      Key1 (K ''KEY_T''), Key1 (K ''KEY_R''), Key3 (K ''KEY_E'') KEY_DUMMY (K ''KEYPAD_9''),
      Key3 (K ''KEY_W'') KEY_DUMMY (K ''KEYPAD_8''),
      Key3 (K ''KEY_Q'') KEY_DUMMY (K ''KEYPAD_7''), Key1 (K ''KEY_TAB'')],
     [Key1 (K ''KEY_ENTER''), Key1 (K ''KEY_BACKSLASH''), Key1 (K ''KEY_QUOTE''),
      Key1 (K ''KEY_SEMICOLON''), Key2 (K ''KEY_L'') (K ''KEY_UP''), Key1 (K ''KEY_K''),
      Key1 (K ''KEY_J''), Key1 (K ''KEY_H''), Key1 (K ''KEY_G''), Key1 (K ''KEY_F''),
      Key3 (K ''KEY_D'') KEY_DUMMY (K ''KEYPAD_6''),
      Key3 (K ''KEY_S'') KEY_DUMMY (K ''KEYPAD_5''),
      Key3 (K ''KEY_A'') KEY_DUMMY (K ''KEYPAD_4''), Key1 (K ''KEY_CAPS_LOCK'')],
     [Key1 KEY_RSHIFT, Key0 u, Key2 (K ''KEY_SLASH'') (K ''KEY_RIGHT''),
      Key2 (K ''KEY_PERIOD'') (K ''KEY_DOWN''), Key2 (K ''KEY_COMMA'') (K ''KEY_LEFT''),
      Key1 (K ''KEY_M''), Key1 (K ''KEY_N''), Key1 (K ''KEY_B''), Key1 (K ''KEY_V''),
      Key3 (K ''KEY_C'') KEY_DUMMY (K ''KEYPAD_3''),
      Key3 (K ''KEY_X'') KEY_DUMMY (K ''KEYPAD_2''),
      Key3 (K ''KEY_Z'') KEY_DUMMY (K ''KEYPAD_1''),
      Key3 (K ''KEY_NON_US_BS'') KEY_DUMMY (K ''KEYPAD_0''), Key1 KEY_LSHIFT],
     [Key1 KEY_CTRL, Key1 KEY_FN, Key1 KEY_FN2, Key1 KEY_ALTGR, Key0 u, Key0 u, Key0 u,
      Key1 (K ''KEY_SPACE''), Key0 u, Key0 u, Key0 u, Key1 KEY_ALT, Key1 KEY_SUPER,
      Key1 KEY_CTRL]]"

definition KEYS_SPECIAL :: "keylayouts \<Rightarrow> key \<Rightarrow> key list list" where
  "KEYS_SPECIAL K u =
    [[Key1 (K ''KEY_BACKSPACE''), Key2 (K ''KEY_F12'') (K ''KEY_EQUAL''),
      Key2 (K ''KEY_F11'') (K ''KEY_MINUS''), Key2 (K ''KEY_F10'') (K ''KEY_0''),
      Key2 (K ''KEY_F9'') (K ''KEY_9''), Key2 (K ''KEY_F8'') (K ''KEY_8''),
      Key2 (K ''KEY_F7'') (K ''KEY_7''), Key2 (K ''KEY_F6'') (K ''KEY_6''),
      Key2 (K ''KEY_F5'') (K ''KEY_5''), Key2 (K ''KEY_F4'') (K ''KEY_4''),
      Key2 (K ''KEY_F3'') (K ''KEY_3''), Key2 (K ''KEY_F2'') (K ''KEY_2''),
      Key2 (K ''KEY_F1'') (K ''KEY_1''), Key2 (K ''KEY_ESC'') (K ''KEY_TILDE'')],
     [Key0 u, Key1 (K ''KEY_RIGHT_BRACE''), Key1 (K ''KEY_LEFT_BRACE''), Key1 (K ''KEY_P''),
      Key1 (K ''KEY_O''), Key1 (K ''KEY_I''), Key1 (K ''KEY_U''), Key1 (K ''KEY_Y''),
      Key1 (K ''KEY_T''), Key1 (K ''KEY_R''), Key3 (K ''KEY_E'') KEY_DUMMY (K ''KEYPAD_9''),
      Key3 (K ''KEY_W'') KEY_DUMMY (K ''KEYPAD_8''),
      Key3 (K ''KEY_Q'') KEY_DUMMY (K ''KEYPAD_7''), Key1 (K ''KEY_TAB'')],
     [Key1 (K ''KEY_ENTER''), Key1 (K ''KEY_BACKSLASH''), Key1 (K ''KEY_QUOTE''),
      Key1 (K ''KEY_SEMICOLON''), Key2 (K ''KEY_L'') (K ''KEY_UP''), Key1 (K ''KEY_K''),
      Key1 (K ''KEY_J''), Key1 (K ''KEY_H''), Key1 (K ''KEY_G''), Key1 (K ''KEY_F''),
      Key3 (K ''KEY_D'') KEY_DUMMY (K ''KEYPAD_6''),
      Key3 (K ''KEY_S'') KEY_DUMMY (K ''KEYPAD_5''),
      Key3 (K ''KEY_A'') KEY_DUMMY (K ''KEYPAD_4''), Key1 (K ''KEY_CAPS_LOCK'')],
     [Key1 KEY_RSHIFT, Key0 u, Key2 (K ''KEY_SLASH'') (K ''KEY_RIGHT''),
      Key2 (K ''KEY_PERIOD'') (K ''KEY_DOWN''), Key2 (K ''KEY_COMMA'') (K ''KEY_LEFT''),
      Key1 (K ''KEY_M''), Key1 (K ''KEY_N''), Key1 (K ''KEY_B''), Key1 (K ''KEY_V''),
      Key3 (K ''KEY_C'') KEY_DUMMY (K ''KEYPAD_3''),
      Key3 (K ''KEY_X'') KEY_DUMMY (K ''KEYPAD_2''),
      Key3 (K ''KEY_Z'') KEY_DUMMY (K ''KEYPAD_1''),
      Key3 (K ''KEY_NON_US_BS'') KEY_DUMMY (K ''KEYPAD_0''), Key1 KEY_LSHIFT],
     [Key1 KEY_CTRL, Key1 KEY_FN, Key1 KEY_FN2, Key1 KEY_ALTGR, Key0 u, Key0 u, Key0 u,
      Key1 (K ''KEY_SPACE''), Key0 u, Key0 u, Key0 u, Key1 KEY_ALT, Key1 KEY_SUPER,
      Key1 KEY_CTRL]]"

definition at :: "key list list \<Rightarrow> layout" where
  "at T row col = T ! row ! col"

section \<open>Vocabulary of the properties\<close>

text \<open>The branch of the scan that a pressed key takes.\<close>

definition translated :: "key \<Rightarrow> bool" where
  "translated k \<longleftrightarrow> \<not> is_fn k \<and> \<not> is_fn2 k \<and> is_modifier k"

definition media_key :: "key \<Rightarrow> bool" where
  "media_key k \<longleftrightarrow> \<not> is_fn k \<and> \<not> is_fn2 k \<and> \<not> is_modifier k \<and> is_media k"

definition ordinary :: "key \<Rightarrow> bool" where
  "ordinary k \<longleftrightarrow> \<not> is_fn k \<and> \<not> is_fn2 k \<and> \<not> is_modifier k \<and> \<not> is_media k"

text \<open>
  The keys that a scan finds pressed, in the order of the scan (row by row, column by
  column), and the ones among them that fit into \<^verbatim>\<open>curr_pressed_keys\<close>.
\<close>

definition pressed :: "layout \<Rightarrow> matrix \<Rightarrow> key list" where
  "pressed keymap pins =
     concat (map (\<lambda>row. map (keymap row)
                          (filter (\<lambda>col. \<not> is_dummy (keymap row col) \<and> pins row col) [0..<NUM_COLS]))
                 [0..<NUM_ROWS])"

definition ordinary_pressed :: "layout \<Rightarrow> matrix \<Rightarrow> key list" where
  "ordinary_pressed keymap pins = take MAX_NUM_KEYS (filter ordinary (pressed keymap pins))"

text \<open>
  Every negative code of the layout is one of the eight that keyboard.h declares
  (\<open>KEY_LSHIFT\<close> ... \<open>KEY_FN2\<close>).
\<close>

definition modifiers_known :: "layout \<Rightarrow> bool" where
  "modifiers_known keymap \<longleftrightarrow> (\<forall>row<NUM_ROWS. \<forall>col<NUM_COLS. - 8 \<le> code (keymap row col))"

text \<open>No code that an ordinary key of the layout can send has a zero low byte.\<close>

definition sendable :: "key \<Rightarrow> bool" where
  "sendable k \<longleftrightarrow>
     uint8 (code k) \<noteq> 0 \<and>
     (has_second k \<longrightarrow> uint8 (second k) \<noteq> 0) \<and>
     (has_third k \<longrightarrow> uint8 (third k) \<noteq> 0)"

definition codes_sendable :: "layout \<Rightarrow> bool" where
  "codes_sendable keymap \<longleftrightarrow>
     (\<forall>row<NUM_ROWS. \<forall>col<NUM_COLS.
        \<not> is_dummy (keymap row col) \<and> ordinary (keymap row col) \<longrightarrow> sendable (keymap row col))"

text \<open>Slots of the output buffer.\<close>

definition resident :: "board \<Rightarrow> key \<Rightarrow> bool" where
  "resident b k \<longleftrightarrow> (\<exists>i<MAX_NUM_KEYS. key_eq (keys_to_send b ! i) k)"

definition has_free :: "board \<Rightarrow> bool" where
  "has_free b \<longleftrightarrow> (\<exists>i<MAX_NUM_KEYS. is_dummy (keys_to_send b ! i))"

text \<open>Slot \<open>i\<close> holds a key that is in no cell of \<^verbatim>\<open>curr_pressed_keys\<close>.\<close>

definition released :: "board \<Rightarrow> nat \<Rightarrow> bool" where
  "released b i \<longleftrightarrow>
     \<not> is_dummy (keys_to_send b ! i) \<and>
     \<not> (\<exists>j<MAX_NUM_KEYS. key_eq (keys_to_send b ! i) (curr_pressed_keys b ! j))"

definition no_duplicates :: "board \<Rightarrow> bool" where
  "no_duplicates b \<longleftrightarrow>
     (\<forall>i<MAX_NUM_KEYS. \<forall>j<MAX_NUM_KEYS. i \<noteq> j \<longrightarrow> \<not> is_dummy (keys_to_send b ! i) \<longrightarrow>
        \<not> key_eq (keys_to_send b ! i) (keys_to_send b ! j))"

definition empty_slots_neutral :: "board \<Rightarrow> bool" where
  "empty_slots_neutral b \<longleftrightarrow>
     (\<forall>i<MAX_NUM_KEYS. is_dummy (keys_to_send b ! i) \<longrightarrow> codes_to_send b ! i = KEY_DUMMY)"

definition neutral_slots_empty :: "board \<Rightarrow> bool" where
  "neutral_slots_empty b \<longleftrightarrow>
     (\<forall>i<MAX_NUM_KEYS. codes_to_send b ! i = KEY_DUMMY \<longrightarrow> is_dummy (keys_to_send b ! i))"

definition empty_iff_neutral :: "board \<Rightarrow> bool" where
  "empty_iff_neutral b \<longleftrightarrow>
     (\<forall>i<MAX_NUM_KEYS. is_dummy (keys_to_send b ! i) \<longleftrightarrow> codes_to_send b ! i = KEY_DUMMY)"

definition from_pressed :: "board \<Rightarrow> bool" where
  "from_pressed b \<longleftrightarrow>
     (\<forall>i<MAX_NUM_KEYS. \<not> is_dummy (keys_to_send b ! i) \<longrightarrow>
        (\<exists>j<MAX_NUM_KEYS. key_eq (keys_to_send b ! i) (curr_pressed_keys b ! j)))"

text \<open>What the placement loop leaves alone, and what it does to each slot.\<close>

definition same_frame :: "board \<Rightarrow> board \<Rightarrow> bool" where
  "same_frame b b' \<longleftrightarrow>
     curr_pressed_keys b' = curr_pressed_keys b \<and>
     just_released_keys b' = just_released_keys b \<and>
     num_keys_released b' = num_keys_released b \<and>
     all_pressed_keys b' = all_pressed_keys b \<and>
     fn_pressed b' = fn_pressed b \<and> fn2_pressed b' = fn2_pressed b \<and>
     pressed_media b' = pressed_media b \<and>
     num_keys_pressed b' = num_keys_pressed b \<and>
     length (keys_to_send b') = length (keys_to_send b) \<and>
     length (codes_to_send b') = length (codes_to_send b)"

definition slotwise :: "board \<Rightarrow> board \<Rightarrow> bool" where
  "slotwise b b' \<longleftrightarrow>
     (\<forall>l<MAX_NUM_KEYS.
        (keys_to_send b' ! l = keys_to_send b ! l \<and> codes_to_send b' ! l = codes_to_send b ! l) \<or>
        (is_dummy (keys_to_send b ! l) \<and>
         (\<exists>j<MAX_NUM_KEYS. \<not> is_dummy (curr_pressed_keys b ! j) \<and>
            keys_to_send b' ! l = curr_pressed_keys b ! j \<and>
            codes_to_send b' ! l = place_code (curr_pressed_keys b ! j) b)))"

text \<open>
  The board \<open>b3\<close> that the scan of a cycle returns, against the board \<open>b\<close> before the
  cycle and the keys pressed.
\<close>

definition scanned :: "layout \<Rightarrow> matrix \<Rightarrow> key \<Rightarrow> board \<Rightarrow> board \<Rightarrow> bool" where
  "scanned keymap pins u b b3 \<longleftrightarrow>
     wf_board b3 \<and>
     num_keys_released b3 = 0 \<and>
     curr_pressed_keys b3 =
       ordinary_pressed keymap pins @
       replicate (MAX_NUM_KEYS - length (ordinary_pressed keymap pins)) (Key0 u) \<and>
     keys_to_send b3 = keys_to_send b \<and>
     codes_to_send b3 = codes_to_send b \<and>
     just_released_keys b3 = replicate MAX_NUM_KEYS (Key0 u) \<and>
     fn_pressed b3 = (\<exists>k\<in>set (pressed keymap pins). is_fn k) \<and>
     fn2_pressed b3 = (\<exists>k\<in>set (pressed keymap pins). is_fn2 k) \<and>
     pressed_media b3 =
       (if filter media_key (pressed keymap pins) = [] then Key0 u
        else last (filter media_key (pressed keymap pins))) \<and>
     num_keys_pressed b3 = length (filter ordinary (pressed keymap pins)) \<and>
     tot_num_keys_pressed b3 = length (pressed keymap pins)"

text \<open>
  The board \<open>b1\<close> after the release phase and the board \<open>b'\<close> at the end of
  \<^verbatim>\<open>update_keys_to_send\<close>, against the board \<open>b\<close> it starts from.
\<close>

definition resolved :: "key \<Rightarrow> board \<Rightarrow> board \<Rightarrow> board \<Rightarrow> bool" where
  "resolved u b b1 b' \<longleftrightarrow>
     set_media (fold place_slot [0..<MAX_NUM_KEYS] b1) = b' \<and>
     wf_board b1 \<and> wf_board b' \<and>
     (\<forall>i<MAX_NUM_KEYS. keys_to_send b1 ! i = (if released b i then Key0 u else keys_to_send b ! i)) \<and>
     (\<forall>i<MAX_NUM_KEYS. codes_to_send b1 ! i = (if released b i then KEY_DUMMY else codes_to_send b ! i)) \<and>
     just_released_keys b1 =
       map (\<lambda>i. keys_to_send b ! i) (filter (released b) [0..<MAX_NUM_KEYS]) @
       drop (length (filter (released b) [0..<MAX_NUM_KEYS])) (just_released_keys b) \<and>
     num_keys_released b1 = length (filter (released b) [0..<MAX_NUM_KEYS]) \<and>
     curr_pressed_keys b1 = curr_pressed_keys b \<and>
     fn_pressed b1 = fn_pressed b \<and> fn2_pressed b1 = fn2_pressed b \<and>
     pressed_media b1 = pressed_media b \<and>
     num_keys_pressed b1 = num_keys_pressed b \<and>
     same_frame b1 b' \<and> slotwise b1 b' \<and>
     from_pressed b1 \<and> from_pressed b' \<and>
     (no_duplicates b \<longrightarrow> no_duplicates b1 \<and> no_duplicates b' \<and>
        (\<forall>j<MAX_NUM_KEYS. \<not> is_dummy (curr_pressed_keys b ! j) \<longrightarrow> resident b' (curr_pressed_keys b ! j)))"

text \<open>The properties of the output buffer that every cycle keeps.\<close>

definition slot_invariant :: "board \<Rightarrow> bool" where
  "slot_invariant b \<longleftrightarrow> wf_board b \<and> no_duplicates b \<and> empty_slots_neutral b"

text \<open>
  The resolution rule as the specification words it (section 4.3): the tertiary code
  first, under layer 2; then the secondary code, under layer 1; else the primary code.
\<close>

definition spec_code :: "key \<Rightarrow> bool \<Rightarrow> bool \<Rightarrow> int" where
  "spec_code k layer1_active layer2_active =
     (if layer2_active \<and> has_third k then third k
      else if layer1_active \<and> has_second k then second k
      else code k)"

section \<open>Sample inputs\<close>

text \<open>
  Concrete inputs on which the theorems below are instantiated: stale storage for the
  default constructor, a board before \<^verbatim>\<open>init\<close> with arbitrary content, values for the
  Teensy macros, a small layout and switch matrices given by the positions held down.
\<close>

definition stale :: key where
  "stale = \<lparr>code = 7, second = 8, third = 9\<rparr>"

definition power_on :: board where
  "power_on = \<lparr>
     fn_pressed = True, fn2_pressed = True,
     num_keys_pressed = 3, num_keys_released = 9, tot_num_keys_pressed = 200,
     curr_pressed_keys = replicate 6 stale,
     all_pressed_keys = replicate 70 stale,
     just_released_keys = replicate 6 stale,
     keys_to_send = replicate 6 stale,
     codes_to_send = replicate 6 5,
     current_modifier = 3, pressed_media = stale, current_media = 77\<rparr>"

definition teensy :: keylayouts where
  "teensy name = 0xF004"

definition keylayouts_sample :: keylayouts where
  "keylayouts_sample name = 0xF000 +
     (if name = ''KEY_A'' then 4 else if name = ''KEY_L'' then 15
      else if name = ''KEY_UP'' then 82 else if name = ''KEY_1'' then 30
      else if name = ''KEY_F1'' then 58 else if name = ''KEY_Q'' then 20
      else if name = ''KEYPAD_7'' then 95 else 44)"

definition demo_keymap :: layout where
  "demo_keymap row col =
     (if row = 0 \<and> col = 0 then Key2 4 5
      else if row = 0 \<and> col = 1 then Key3 6 7 8
      else if row = 0 \<and> col = 2 then Key1 0xE4E9
      else if row = 0 \<and> col = 3 then Key2 0xE4EA 0xE4E2
      else if row = 1 \<and> col < 7 then Key1 (10 + int col)
      else if row = 4 \<and> col = 0 then Key1 KEY_CTRL
      else if row = 4 \<and> col = 1 then Key1 KEY_FN
      else if row = 4 \<and> col = 2 then Key1 KEY_FN2
      else Key0 stale)"

definition held :: "(nat \<times> nat) list \<Rightarrow> matrix" where
  "held ps row col \<longleftrightarrow> (row, col) \<in> set ps"

definition dedup_board :: board where
  "dedup_board = (init stale power_on)\<lparr>
     keys_to_send := [Key3 4 5 6, Key0 stale, Key0 stale, Key0 stale, Key0 stale, Key0 stale],
     codes_to_send := [4, 0, 0, 0, 0, 0],
     curr_pressed_keys := [Key3 4 5 9, Key0 stale, Key0 stale, Key0 stale, Key0 stale, Key0 stale],
     num_keys_released := 0\<rparr>"

text \<open>The board after a first cycle in which the key at row 0, column 0 is pressed alone.\<close>

definition one_key_down :: board where
  "one_key_down = projr (update teensy demo_keymap stale (held [(0, 0)]) (init stale power_on))"

text \<open>
  On the table \<open>KEYS\<close>: the keys 1, L and A held down; then Q and A, with FN2.
\<close>

definition three_keys :: matrix where
  "three_keys = held [(0, 12), (2, 4), (2, 12)]"

definition two_keys_fn2 :: matrix where
  "two_keys_fn2 = held [(1, 12), (2, 12), (4, 2)]"

text \<open>Six keys held down, and the board after a cycle with them.\<close>

definition six_keys :: matrix where
  "six_keys = held [(1, 0), (1, 1), (1, 2), (1, 3), (1, 4), (1, 5)]"

definition six_keys_down :: board where
  "six_keys_down = projr (cycles teensy demo_keymap stale [six_keys] (init stale power_on))"

definition seven_keys :: matrix where
  "seven_keys = held [(1, 0), (1, 1), (1, 2), (1, 3), (1, 4), (1, 5), (1, 6), (4, 0)]"

definition one_replaced :: matrix where
  "one_replaced = held [(1, 1), (1, 2), (1, 3), (1, 4), (1, 5), (1, 6)]"

section \<open>Basic facts\<close>

subsection \<open>Keys\<close>

lemma key_eq_refl: "key_eq a a"
  by (simp add: key_eq_def)

lemma dummy_not_key_eq: "is_dummy a \<Longrightarrow> \<not> is_dummy k \<Longrightarrow> \<not> key_eq a k"
  by (auto simp: is_dummy_def key_eq_def)

lemma key_eq_sym: "key_eq a b \<Longrightarrow> key_eq b a"
  by (simp add: key_eq_def)

lemma key_eq_trans: "key_eq a b \<Longrightarrow> key_eq b c \<Longrightarrow> key_eq a c"
  by (simp add: key_eq_def)

lemma key_eq_dummy: "key_eq a b \<Longrightarrow> is_dummy a = is_dummy b"
  by (simp add: key_eq_def is_dummy_def)

lemma find_slot_None:
  "\<not> is_dummy k \<Longrightarrow>
   find_slot ks k is l f = None \<longleftrightarrow> (\<exists>i\<in>set is. key_eq (ks ! i) k)"
proof (induction "is" arbitrary: l f)
  case Nil
  then show ?case by simp
next
  case (Cons i "is")
  then show ?case
    by (auto dest: dummy_not_key_eq)
qed

lemma find_slot_Some:
  "find_slot ks k is l f = Some (l', f') \<Longrightarrow>
   (f' \<longleftrightarrow> f \<or> (\<exists>i\<in>set is. is_dummy (ks ! i))) \<and>
   (f \<longrightarrow> l' = l) \<and>
   (\<not> f \<and> f' \<longrightarrow> l' \<in> set is \<and> is_dummy (ks ! l'))"
proof (induction "is" arbitrary: l f)
  case Nil
  then show ?case by auto
next
  case (Cons i "is")
  show ?case
  proof (cases "is_dummy (ks ! i) \<and> \<not> f")
    case True
    with Cons.prems have "find_slot ks k is i True = Some (l', f')" by simp
    from Cons.IH[OF this] True show ?thesis by auto
  next
    case False
    with Cons.prems have "find_slot ks k is l f = Some (l', f')"
      by (auto split: if_splits)
    from Cons.IH[OF this] False show ?thesis by auto
  qed
qed

lemma try_place_key_resident:
  "\<not> is_dummy k \<Longrightarrow> resident b k \<Longrightarrow> try_place_key k b = (False, b)"
proof -
  assume a: "\<not> is_dummy k" "resident b k"
  then have "find_slot (keys_to_send b) k [0..<MAX_NUM_KEYS] 0 False = None"
    by (auto simp: find_slot_None resident_def)
  then show ?thesis by (simp add: try_place_key_def)
qed

lemma try_place_key_full:
  "\<not> has_free b \<Longrightarrow> try_place_key k b = (False, b)"
proof (cases "find_slot (keys_to_send b) k [0..<MAX_NUM_KEYS] 0 False")
  case None
  then show ?thesis by (simp add: try_place_key_def)
next
  case (Some p)
  assume nf: "\<not> has_free b"
  obtain l f where p: "p = (l, f)" by (cases p)
  from find_slot_Some[OF Some[unfolded p]] nf have "\<not> f"
    by (auto simp: has_free_def)
  with Some p show ?thesis by (simp add: try_place_key_def)
qed

lemma try_place_key_placed:
  assumes "\<not> is_dummy k" "\<not> resident b k" "has_free b"
  shows "\<exists>l<MAX_NUM_KEYS. is_dummy (keys_to_send b ! l) \<and>
           try_place_key k b =
             (True, b\<lparr>keys_to_send := (keys_to_send b)[l := k],
                      codes_to_send := (codes_to_send b)[l := place_code k b]\<rparr>)"
proof -
  from assms have "find_slot (keys_to_send b) k [0..<MAX_NUM_KEYS] 0 False \<noteq> None"
    by (auto simp: find_slot_None resident_def)
  then obtain l f where s: "find_slot (keys_to_send b) k [0..<MAX_NUM_KEYS] 0 False = Some (l, f)"
    by auto
  from find_slot_Some[OF s] assms(3) have f: "f" and l: "l < MAX_NUM_KEYS" "is_dummy (keys_to_send b ! l)"
    by (auto simp: has_free_def)
  with s show ?thesis by (auto simp: try_place_key_def)
qed

subsection \<open>Loops\<close>

lemma foreach_append:
  "foreach f (xs @ ys) s = (case foreach f xs s of Inl e \<Rightarrow> Inl e | Inr s' \<Rightarrow> foreach f ys s')"
  by (induction xs arbitrary: s) (auto split: sum.splits)

lemma foreach_concat:
  "foreach (\<lambda>x. foreach g (h x)) xs s = foreach g (concat (map h xs)) s"
  by (induction xs arbitrary: s) (auto simp: foreach_append split: sum.splits)

lemma foreach_filter_map:
  "foreach (\<lambda>x s. if p x then g (h x) s else Inr s) xs s = foreach g (map h (filter p xs)) s"
  by (induction xs arbitrary: s) (auto split: sum.splits)

lemma scan_keys_pressed:
  "scan_keys K keymap pins b = foreach (scan_key K) (pressed keymap pins) b"
proof -
  have row: "foreach (scan_pos K keymap pins row) cols s =
      foreach (scan_key K) (map (keymap row) (filter (\<lambda>col. \<not> is_dummy (keymap row col) \<and> pins row col) cols)) s"
    for row cols s
    by (induction cols arbitrary: s) (auto simp: scan_pos_def split: sum.splits)
  have "foreach (scan_pos K keymap pins row) cols =
      foreach (scan_key K) (map (keymap row) (filter (\<lambda>col. \<not> is_dummy (keymap row col) \<and> pins row col) cols))"
    for row cols
    by (rule ext) (rule row)
  then show ?thesis
    by (simp add: scan_keys_def pressed_def flip: foreach_concat)
qed

lemma length_concat_le:
  "(\<And>x. x \<in> set xs \<Longrightarrow> length (h x) \<le> n) \<Longrightarrow> length (concat (map h xs)) \<le> length xs * n"
  by (induction xs) (auto simp: add_le_mono)

lemma length_pressed: "length (pressed keymap pins) \<le> NUM_ROWS * NUM_COLS"
proof -
  have "length (pressed keymap pins) \<le> length [0..<NUM_ROWS] * NUM_COLS"
    unfolding pressed_def
    by (rule length_concat_le) (simp add: le_trans[OF length_filter_le])
  then show ?thesis by simp
qed

lemma fill_eq: "fill v n xs = replicate (min n (length xs)) v @ drop n xs"
proof (induction n)
  case 0
  then show ?case by (simp add: fill_def)
next
  case (Suc n)
  have "fill v (Suc n) xs = (fill v n xs)[n := v]"
    by (simp add: fill_def)
  also have "\<dots> = (replicate (min n (length xs)) v @ drop n xs)[n := v]"
    by (simp add: Suc)
  also have "\<dots> = replicate (min (Suc n) (length xs)) v @ drop (Suc n) xs"
  proof (cases "n < length xs")
    case True
    then have "(replicate (min n (length xs)) v @ drop n xs)[n := v] = replicate n v @ (drop n xs)[0 := v]"
      by (simp add: list_update_append min_def)
    also have "(drop n xs)[0 := v] = v # drop (Suc n) xs"
      using True by (simp add: Cons_nth_drop_Suc[symmetric])
    finally show ?thesis using True by (simp add: min_def replicate_app_Cons_same)
  next
    case False
    then show ?thesis by (simp add: min_def list_update_beyond)
  qed
  finally show ?case .
qed

lemma fill_full: "length xs = n \<Longrightarrow> fill v n xs = replicate n v"
  by (simp add: fill_eq)

lemma length_fill [simp]: "length (fill v n xs) = length xs"
  by (simp add: fill_eq)

lemma length_clear_all_pressed [simp]: "length (clear_all_pressed u is a) = length a"
  by (induction "is" arbitrary: a) auto

subsection \<open>The scan\<close>

lemma translate_modifier_ok:
  "- 6 \<le> m \<Longrightarrow> \<exists>v. translate_modifier K m = Inr v"
  by (simp add: translate_modifier_def modifier_index_def NUM_MODIFIERS_def)

lemma translated_range:
  "translated k \<Longrightarrow> - 8 \<le> code k \<Longrightarrow> - 6 \<le> code k \<and> code k \<le> - 1"
  by (auto simp: translated_def is_fn_def is_fn2_def is_modifier_def KEY_FN_def KEY_FN2_def)

text \<open>What one step of the scan does, branch by branch.\<close>

lemma scan_key_cases:
  assumes "tot_num_keys_pressed b < NUM_ROWS * NUM_COLS"
    and "translated k \<longrightarrow> - 6 \<le> code k"
  shows "\<exists>b'. scan_key K k b = Inr b' \<and>
     tot_num_keys_pressed b' = incr8 (tot_num_keys_pressed b) \<and>
     num_keys_pressed b' = (if ordinary k then incr8 (num_keys_pressed b) else num_keys_pressed b) \<and>
     curr_pressed_keys b' =
       (if ordinary k \<and> num_keys_pressed b < MAX_NUM_KEYS
        then (curr_pressed_keys b)[num_keys_pressed b := k] else curr_pressed_keys b) \<and>
     fn_pressed b' = (fn_pressed b \<or> is_fn k) \<and>
     fn2_pressed b' = (fn2_pressed b \<or> (\<not> is_fn k \<and> is_fn2 k)) \<and>
     pressed_media b' = (if media_key k then k else pressed_media b) \<and>
     keys_to_send b' = keys_to_send b \<and>
     codes_to_send b' = codes_to_send b \<and>
     just_released_keys b' = just_released_keys b \<and>
     num_keys_released b' = num_keys_released b \<and>
     current_media b' = current_media b \<and>
     length (all_pressed_keys b') = length (all_pressed_keys b)"
proof -
  consider (fn) "is_fn k" | (fn2) "\<not> is_fn k" "is_fn2 k" | (tr) "translated k"
    | (me) "media_key k" | (or) "ordinary k"
    by (auto simp: translated_def media_key_def ordinary_def)
  then show ?thesis
  proof cases
    case fn
    then have "\<not> ordinary k" "\<not> media_key k" by (auto simp: ordinary_def media_key_def)
    with fn assms(1) show ?thesis by (simp add: scan_key_def Let_def)
  next
    case fn2
    then have "\<not> ordinary k" "\<not> media_key k" by (auto simp: ordinary_def media_key_def)
    with fn2 assms(1) show ?thesis by (simp add: scan_key_def Let_def)
  next
    case tr
    then have n: "\<not> ordinary k" "\<not> media_key k" "\<not> is_fn k" "\<not> is_fn2 k" "is_modifier k"
      by (auto simp: ordinary_def media_key_def translated_def)
    from tr assms(2) obtain v where "translate_modifier K (code k) = Inr v"
      using translate_modifier_ok by blast
    with n assms(1) show ?thesis by (simp add: scan_key_def Let_def)
  next
    case me
    then have n: "\<not> ordinary k" "\<not> is_fn k" "\<not> is_fn2 k" "\<not> is_modifier k" "is_media k"
      by (auto simp: ordinary_def media_key_def)
    with me assms(1) show ?thesis by (simp add: scan_key_def Let_def)
  next
    case or
    then have n: "\<not> media_key k" "\<not> is_fn k" "\<not> is_fn2 k" "\<not> is_modifier k" "\<not> is_media k"
      by (auto simp: ordinary_def media_key_def)
    with or assms(1) show ?thesis by (simp add: scan_key_def Let_def)
  qed
qed

lemma incr8_small: "n < 255 \<Longrightarrow> incr8 n = Suc n"
  by (simp add: incr8_def)

lemma take_snoc_update:
  assumes "length c = m" "n = length os"
  shows "n < m \<Longrightarrow> (take m os @ drop n c)[n := x] = take m (os @ [x]) @ drop (Suc n) c"
    and "\<not> n < m \<Longrightarrow> take m os @ drop n c = take m (os @ [x]) @ drop (Suc n) c"
proof -
  assume lt: "n < m"
  with assms have "(take m os @ drop n c)[n := x] = os @ (drop n c)[0 := x]"
    by (simp add: list_update_append)
  also have "(drop n c)[0 := x] = x # drop (Suc n) c"
    using lt assms by (simp add: Cons_nth_drop_Suc[symmetric])
  finally show "(take m os @ drop n c)[n := x] = take m (os @ [x]) @ drop (Suc n) c"
    using lt assms by simp
next
  assume "\<not> n < m"
  with assms show "take m os @ drop n c = take m (os @ [x]) @ drop (Suc n) c"
    by simp
qed

lemma scan_result:
  assumes "tot_num_keys_pressed b = 0" "num_keys_pressed b = 0"
    and "length (curr_pressed_keys b) = MAX_NUM_KEYS"
    and "length ks \<le> NUM_ROWS * NUM_COLS"
    and "\<forall>k\<in>set ks. translated k \<longrightarrow> - 6 \<le> code k"
  shows "\<exists>b'. foreach (scan_key K) ks b = Inr b' \<and>
     tot_num_keys_pressed b' = length ks \<and>
     num_keys_pressed b' = length (filter ordinary ks) \<and>
     curr_pressed_keys b' =
       take MAX_NUM_KEYS (filter ordinary ks) @ drop (length (filter ordinary ks)) (curr_pressed_keys b) \<and>
     fn_pressed b' = (fn_pressed b \<or> (\<exists>k\<in>set ks. is_fn k)) \<and>
     fn2_pressed b' = (fn2_pressed b \<or> (\<exists>k\<in>set ks. \<not> is_fn k \<and> is_fn2 k)) \<and>
     pressed_media b' = (if filter media_key ks = [] then pressed_media b else last (filter media_key ks)) \<and>
     keys_to_send b' = keys_to_send b \<and>
     codes_to_send b' = codes_to_send b \<and>
     just_released_keys b' = just_released_keys b \<and>
     num_keys_released b' = num_keys_released b \<and>
     current_media b' = current_media b \<and>
     length (all_pressed_keys b') = length (all_pressed_keys b)"
  using assms(4,5)
proof (induction ks rule: rev_induct)
  case Nil
  then show ?case using assms(1-3) by simp
next
  case (snoc x ks)
  then obtain b1 where b1: "foreach (scan_key K) ks b = Inr b1"
     "tot_num_keys_pressed b1 = length ks"
     "num_keys_pressed b1 = length (filter ordinary ks)"
     "curr_pressed_keys b1 =
       take MAX_NUM_KEYS (filter ordinary ks) @ drop (length (filter ordinary ks)) (curr_pressed_keys b)"
     "fn_pressed b1 = (fn_pressed b \<or> (\<exists>k\<in>set ks. is_fn k))"
     "fn2_pressed b1 = (fn2_pressed b \<or> (\<exists>k\<in>set ks. \<not> is_fn k \<and> is_fn2 k))"
     "pressed_media b1 = (if filter media_key ks = [] then pressed_media b else last (filter media_key ks))"
     "keys_to_send b1 = keys_to_send b"
     "codes_to_send b1 = codes_to_send b"
     "just_released_keys b1 = just_released_keys b"
     "num_keys_released b1 = num_keys_released b"
     "current_media b1 = current_media b"
     "length (all_pressed_keys b1) = length (all_pressed_keys b)"
    by auto
  have len: "length ks < NUM_ROWS * NUM_COLS" using snoc.prems(1) by simp
  then have small: "length ks < 255" "length (filter ordinary ks) < 255"
    using le_less_trans[OF length_filter_le, of ks 255 ordinary]
    by (simp_all add: NUM_ROWS_def NUM_COLS_def)
  have tr: "translated x \<longrightarrow> - 6 \<le> code x" using snoc.prems(2) by simp
  from scan_key_cases[of b1 x K] len tr b1(2) obtain b' where b':
     "scan_key K x b1 = Inr b'"
     "tot_num_keys_pressed b' = incr8 (tot_num_keys_pressed b1)"
     "num_keys_pressed b' = (if ordinary x then incr8 (num_keys_pressed b1) else num_keys_pressed b1)"
     "curr_pressed_keys b' =
       (if ordinary x \<and> num_keys_pressed b1 < MAX_NUM_KEYS
        then (curr_pressed_keys b1)[num_keys_pressed b1 := x] else curr_pressed_keys b1)"
     "fn_pressed b' = (fn_pressed b1 \<or> is_fn x)"
     "fn2_pressed b' = (fn2_pressed b1 \<or> (\<not> is_fn x \<and> is_fn2 x))"
     "pressed_media b' = (if media_key x then x else pressed_media b1)"
     "keys_to_send b' = keys_to_send b1"
     "codes_to_send b' = codes_to_send b1"
     "just_released_keys b' = just_released_keys b1"
     "num_keys_released b' = num_keys_released b1"
     "current_media b' = current_media b1"
     "length (all_pressed_keys b') = length (all_pressed_keys b1)"
    by auto
  have run: "foreach (scan_key K) (ks @ [x]) b = Inr b'"
    by (simp add: foreach_append b1(1) b'(1))
  have c: "curr_pressed_keys b' =
       take MAX_NUM_KEYS (filter ordinary (ks @ [x])) @
       drop (length (filter ordinary (ks @ [x]))) (curr_pressed_keys b)"
  proof (cases "ordinary x")
    case True
    show ?thesis
      using True b'(4) b1(3,4) take_snoc_update[OF assms(3) refl, of "filter ordinary ks" x]
      by auto
  next
    case False
    then show ?thesis using b'(4) b1(4) by simp
  qed
  show ?case
    unfolding run
    using b' b1 c small by (auto simp: incr8_small)
qed

subsection \<open>The release phase\<close>

lemma key_found_iff: "key_found k cs js \<longleftrightarrow> (\<exists>j\<in>set js. key_eq k (cs ! j))"
  by (induction js) auto

lemma release_slot_cases:
  assumes "released b i \<longrightarrow> num_keys_released b < MAX_NUM_KEYS"
  shows "\<exists>b'. release_slot u i b = Inr b' \<and>
     keys_to_send b' = (if released b i then (keys_to_send b)[i := Key0 u] else keys_to_send b) \<and>
     codes_to_send b' = (if released b i then (codes_to_send b)[i := KEY_DUMMY] else codes_to_send b) \<and>
     just_released_keys b' =
       (if released b i then (just_released_keys b)[num_keys_released b := keys_to_send b ! i]
        else just_released_keys b) \<and>
     num_keys_released b' = (if released b i then incr8 (num_keys_released b) else num_keys_released b) \<and>
     curr_pressed_keys b' = curr_pressed_keys b \<and>
     all_pressed_keys b' = all_pressed_keys b \<and>
     fn_pressed b' = fn_pressed b \<and> fn2_pressed b' = fn2_pressed b \<and>
     pressed_media b' = pressed_media b \<and>
     num_keys_pressed b' = num_keys_pressed b"
proof (cases "released b i")
  case True
  then have "\<not> is_dummy (keys_to_send b ! i)"
    "\<not> key_found (keys_to_send b ! i) (curr_pressed_keys b) [0..<MAX_NUM_KEYS]"
    by (auto simp: released_def key_found_iff)
  with True assms show ?thesis
    by (simp add: release_slot_def Let_def)
next
  case False
  then have "is_dummy (keys_to_send b ! i) \<or>
    key_found (keys_to_send b ! i) (curr_pressed_keys b) [0..<MAX_NUM_KEYS]"
    by (auto simp: released_def key_found_iff)
  with False show ?thesis
    by (auto simp: release_slot_def Let_def)
qed

lemma remove_result:
  assumes "num_keys_released b = 0"
    and "length (just_released_keys b) = MAX_NUM_KEYS"
    and "length (keys_to_send b) = MAX_NUM_KEYS"
    and "length (codes_to_send b) = MAX_NUM_KEYS"
    and "distinct is" "\<forall>i\<in>set is. i < MAX_NUM_KEYS"
  shows "\<exists>b'. foreach (release_slot u) is b = Inr b' \<and>
     keys_to_send b' = map (\<lambda>i. if i \<in> set is \<and> released b i then Key0 u else keys_to_send b ! i) [0..<MAX_NUM_KEYS] \<and>
     codes_to_send b' = map (\<lambda>i. if i \<in> set is \<and> released b i then KEY_DUMMY else codes_to_send b ! i) [0..<MAX_NUM_KEYS] \<and>
     just_released_keys b' =
       map (\<lambda>i. keys_to_send b ! i) (filter (released b) is) @
       drop (length (filter (released b) is)) (just_released_keys b) \<and>
     num_keys_released b' = length (filter (released b) is) \<and>
     curr_pressed_keys b' = curr_pressed_keys b \<and>
     all_pressed_keys b' = all_pressed_keys b \<and>
     fn_pressed b' = fn_pressed b \<and> fn2_pressed b' = fn2_pressed b \<and>
     pressed_media b' = pressed_media b \<and>
     num_keys_pressed b' = num_keys_pressed b"
  using assms(5,6)
proof (induction "is" rule: rev_induct)
  case Nil
  have "xs = map (\<lambda>i. xs ! i) [0..<length xs]" for xs :: "'a list"
    by (simp add: map_nth)
  from this[of "keys_to_send b"] this[of "codes_to_send b"]
  show ?case using assms(1-4) by simp
next
  case (snoc i "is")
  let ?rs = "filter (released b) is"
  from snoc obtain b1 where b1: "foreach (release_slot u) is b = Inr b1"
     "keys_to_send b1 = map (\<lambda>i. if i \<in> set is \<and> released b i then Key0 u else keys_to_send b ! i) [0..<MAX_NUM_KEYS]"
     "codes_to_send b1 = map (\<lambda>i. if i \<in> set is \<and> released b i then KEY_DUMMY else codes_to_send b ! i) [0..<MAX_NUM_KEYS]"
     "just_released_keys b1 = map (\<lambda>i. keys_to_send b ! i) ?rs @ drop (length ?rs) (just_released_keys b)"
     "num_keys_released b1 = length ?rs"
     "curr_pressed_keys b1 = curr_pressed_keys b"
     "all_pressed_keys b1 = all_pressed_keys b"
     "fn_pressed b1 = fn_pressed b" "fn2_pressed b1 = fn2_pressed b"
     "pressed_media b1 = pressed_media b"
     "num_keys_pressed b1 = num_keys_pressed b"
    by auto
  have i: "i < MAX_NUM_KEYS" "i \<notin> set is" using snoc.prems by auto
  have ki: "keys_to_send b1 ! i = keys_to_send b ! i" using i by (simp add: b1(2))
  have rel: "released b1 i = released b i"
    by (simp add: released_def ki b1(6))
  have "length ?rs \<le> length is" by simp
  moreover have "length is < MAX_NUM_KEYS"
  proof -
    have "card (set (is @ [i])) \<le> card {0..<MAX_NUM_KEYS}"
      using snoc.prems(2) by (intro card_mono) auto
    then show ?thesis using snoc.prems(1) i(2) by (simp add: distinct_card)
  qed
  ultimately have n: "length ?rs < MAX_NUM_KEYS" by (rule le_less_trans)
  then have n255: "length ?rs < 255" by (simp add: MAX_NUM_KEYS_def)
  from release_slot_cases[of b1 i u] n b1(5) rel obtain b' where b':
    "release_slot u i b1 = Inr b'"
    "keys_to_send b' = (if released b i then (keys_to_send b1)[i := Key0 u] else keys_to_send b1)"
    "codes_to_send b' = (if released b i then (codes_to_send b1)[i := KEY_DUMMY] else codes_to_send b1)"
    "just_released_keys b' =
       (if released b i then (just_released_keys b1)[num_keys_released b1 := keys_to_send b1 ! i]
        else just_released_keys b1)"
    "num_keys_released b' = (if released b i then incr8 (num_keys_released b1) else num_keys_released b1)"
    "curr_pressed_keys b' = curr_pressed_keys b1"
    "all_pressed_keys b' = all_pressed_keys b1"
    "fn_pressed b' = fn_pressed b1" "fn2_pressed b' = fn2_pressed b1"
    "pressed_media b' = pressed_media b1"
    "num_keys_pressed b' = num_keys_pressed b1"
    by auto
  have run: "foreach (release_slot u) (is @ [i]) b = Inr b'"
    by (simp add: foreach_append b1(1) b'(1))
  have k: "keys_to_send b' = map (\<lambda>j. if j \<in> set (is @ [i]) \<and> released b j then Key0 u else keys_to_send b ! j) [0..<MAX_NUM_KEYS]"
    using i(1) by (auto simp: b'(2) b1(2) list_eq_iff_nth_eq nth_list_update)
  have c: "codes_to_send b' = map (\<lambda>j. if j \<in> set (is @ [i]) \<and> released b j then KEY_DUMMY else codes_to_send b ! j) [0..<MAX_NUM_KEYS]"
    using i(1) by (auto simp: b'(3) b1(3) list_eq_iff_nth_eq nth_list_update)
  have j: "just_released_keys b' =
       map (\<lambda>i. keys_to_send b ! i) (filter (released b) (is @ [i])) @
       drop (length (filter (released b) (is @ [i]))) (just_released_keys b)"
  proof (cases "released b i")
    case True
    have "(map (\<lambda>i. keys_to_send b ! i) ?rs @ drop (length ?rs) (just_released_keys b))[length ?rs := keys_to_send b ! i]
        = map (\<lambda>i. keys_to_send b ! i) ?rs @ (drop (length ?rs) (just_released_keys b))[0 := keys_to_send b ! i]"
      by (simp add: list_update_append)
    also have "(drop (length ?rs) (just_released_keys b))[0 := keys_to_send b ! i]
        = keys_to_send b ! i # drop (Suc (length ?rs)) (just_released_keys b)"
      using n assms(2) by (simp add: Cons_nth_drop_Suc[symmetric])
    finally show ?thesis using True by (simp add: b'(4) b1(4,5) ki)
  next
    case False
    then show ?thesis by (simp add: b'(4) b1(4))
  qed
  have m: "num_keys_released b' = length (filter (released b) (is @ [i]))"
    using n255 by (simp add: b'(5) b1(5) incr8_small)
  show ?case
    unfolding run using k c j m b' b1 by simp
qed

subsection \<open>The placement phase\<close>

lemma place_code_frame:
  "fn_pressed b' = fn_pressed b \<Longrightarrow> fn2_pressed b' = fn2_pressed b \<Longrightarrow> place_code k b' = place_code k b"
  by (simp add: place_code_def)

lemma place_slot_cases:
  "(place_slot i b = b \<and>
      (is_dummy (curr_pressed_keys b ! i) \<or> resident b (curr_pressed_keys b ! i) \<or> \<not> has_free b)) \<or>
   (\<exists>l<MAX_NUM_KEYS. is_dummy (keys_to_send b ! l) \<and> \<not> is_dummy (curr_pressed_keys b ! i) \<and>
      \<not> resident b (curr_pressed_keys b ! i) \<and>
      place_slot i b = b\<lparr>keys_to_send := (keys_to_send b)[l := curr_pressed_keys b ! i],
                         codes_to_send := (codes_to_send b)[l := place_code (curr_pressed_keys b ! i) b]\<rparr>)"
proof -
  let ?k = "curr_pressed_keys b ! i"
  consider "is_dummy ?k" | "\<not> is_dummy ?k" "resident b ?k" | "\<not> has_free b"
    | "\<not> is_dummy ?k" "\<not> resident b ?k" "has_free b"
    by blast
  then show ?thesis
  proof cases
    case 1
    then show ?thesis by (simp add: place_slot_def Let_def)
  next
    case 2
    then show ?thesis by (simp add: place_slot_def Let_def try_place_key_resident)
  next
    case 3
    then show ?thesis by (simp add: place_slot_def Let_def try_place_key_full)
  next
    case 4
    from try_place_key_placed[OF this] 4 show ?thesis
      by (auto simp: place_slot_def Let_def)
  qed
qed

text \<open>One step of the placement loop keeps what the loop relies on.\<close>

lemma place_slot_step:
  assumes len: "length (keys_to_send b) = MAX_NUM_KEYS" "length (codes_to_send b) = MAX_NUM_KEYS"
    and i: "i < MAX_NUM_KEYS"
  shows "same_frame b (place_slot i b)"
    and "slotwise b (place_slot i b)"
    and "no_duplicates b \<Longrightarrow> no_duplicates (place_slot i b)"
    and "\<not> is_dummy (curr_pressed_keys b ! i) \<Longrightarrow>
         resident (place_slot i b) (curr_pressed_keys b ! i) \<or> \<not> has_free b"
proof -
  let ?k = "curr_pressed_keys b ! i"
  let ?b' = "place_slot i b"
  from place_slot_cases[of i b]
  consider (same) "?b' = b" "is_dummy ?k \<or> resident b ?k \<or> \<not> has_free b"
    | (new) l where "l < MAX_NUM_KEYS" "is_dummy (keys_to_send b ! l)" "\<not> is_dummy ?k"
        "\<not> resident b ?k"
        "?b' = b\<lparr>keys_to_send := (keys_to_send b)[l := ?k],
                  codes_to_send := (codes_to_send b)[l := place_code ?k b]\<rparr>"
    by blast
  note cases = this
  show "same_frame b ?b'"
    by (cases rule: cases) (simp_all add: same_frame_def)
  show "slotwise b ?b'"
  proof (cases rule: cases)
    case same
    then show ?thesis by (simp add: slotwise_def)
  next
    case (new l)
    show ?thesis
      unfolding slotwise_def
    proof (intro allI impI)
      fix m assume m: "m < MAX_NUM_KEYS"
      show "(keys_to_send ?b' ! m = keys_to_send b ! m \<and> codes_to_send ?b' ! m = codes_to_send b ! m) \<or>
        (is_dummy (keys_to_send b ! m) \<and>
         (\<exists>j<MAX_NUM_KEYS. \<not> is_dummy (curr_pressed_keys b ! j) \<and>
            keys_to_send ?b' ! m = curr_pressed_keys b ! j \<and>
            codes_to_send ?b' ! m = place_code (curr_pressed_keys b ! j) b))"
      proof (cases "m = l")
        case True
        with new len i show ?thesis by auto
      next
        case False
        with new show ?thesis by simp
      qed
    qed
  qed
  show "no_duplicates ?b'" if nd: "no_duplicates b"
  proof (cases rule: cases)
    case same
    with nd show ?thesis by simp
  next
    case (new l)
    have nr: "\<not> key_eq (keys_to_send b ! j) ?k" if "j < MAX_NUM_KEYS" for j
      using new(4) that by (auto simp: resident_def)
    show ?thesis
      unfolding no_duplicates_def
    proof (intro allI impI)
      fix p q assume pq: "p < MAX_NUM_KEYS" "q < MAX_NUM_KEYS" "p \<noteq> q"
        and nd': "\<not> is_dummy (keys_to_send ?b' ! p)"
      show "\<not> key_eq (keys_to_send ?b' ! p) (keys_to_send ?b' ! q)"
      proof (cases "p = l")
        case True
        with pq new len have "keys_to_send ?b' ! p = ?k" "keys_to_send ?b' ! q = keys_to_send b ! q"
          by auto
        with nr[OF pq(2)] show ?thesis by (auto dest: key_eq_sym)
      next
        case False
        then have p: "keys_to_send ?b' ! p = keys_to_send b ! p" using new by simp
        show ?thesis
        proof (cases "q = l")
          case True
          with pq new len have "keys_to_send ?b' ! q = ?k" by auto
          with nr[OF pq(1)] p show ?thesis by simp
        next
          case False
          then have "keys_to_send ?b' ! q = keys_to_send b ! q" using new by simp
          with p nd nd' pq show ?thesis by (auto simp: no_duplicates_def)
        qed
      qed
    qed
  qed
  show "resident ?b' ?k \<or> \<not> has_free b" if k: "\<not> is_dummy ?k"
  proof (cases rule: cases)
    case same
    with k show ?thesis by auto
  next
    case (new l)
    with len have "keys_to_send ?b' ! l = ?k" by simp
    with new(1) have "resident ?b' ?k"
      unfolding resident_def using key_eq_refl by metis
    then show ?thesis ..
  qed
qed

lemma same_frame_refl: "same_frame b b"
  by (simp add: same_frame_def)

lemma same_frame_trans: "same_frame a b \<Longrightarrow> same_frame b c \<Longrightarrow> same_frame a c"
  by (simp add: same_frame_def)

lemma slotwise_refl: "slotwise b b"
  by (simp add: slotwise_def)

lemma slotwiseD [consumes 2, case_names same new]:
  assumes "slotwise b b'" "l < MAX_NUM_KEYS"
  obtains (same) "keys_to_send b' ! l = keys_to_send b ! l" "codes_to_send b' ! l = codes_to_send b ! l"
  | (new) j where "is_dummy (keys_to_send b ! l)" "j < MAX_NUM_KEYS"
      "\<not> is_dummy (curr_pressed_keys b ! j)" "keys_to_send b' ! l = curr_pressed_keys b ! j"
      "codes_to_send b' ! l = place_code (curr_pressed_keys b ! j) b"
proof -
  from assms have "(keys_to_send b' ! l = keys_to_send b ! l \<and> codes_to_send b' ! l = codes_to_send b ! l) \<or>
        (is_dummy (keys_to_send b ! l) \<and>
         (\<exists>j<MAX_NUM_KEYS. \<not> is_dummy (curr_pressed_keys b ! j) \<and>
            keys_to_send b' ! l = curr_pressed_keys b ! j \<and>
            codes_to_send b' ! l = place_code (curr_pressed_keys b ! j) b))"
    by (simp add: slotwise_def)
  then show thesis using same new by blast
qed

lemma slotwise_trans:
  assumes "same_frame a b" "slotwise a b" "slotwise b c"
  shows "slotwise a c"
  unfolding slotwise_def
proof (intro allI impI)
  fix l assume l: "l < MAX_NUM_KEYS"
  have pc: "place_code k b = place_code k a" for k
    by (rule place_code_frame) (use assms(1) in \<open>simp_all add: same_frame_def\<close>)
  have cu: "curr_pressed_keys b = curr_pressed_keys a"
    using assms(1) by (simp add: same_frame_def)
  from assms(2) l
  show "(keys_to_send c ! l = keys_to_send a ! l \<and> codes_to_send c ! l = codes_to_send a ! l) \<or>
        (is_dummy (keys_to_send a ! l) \<and>
         (\<exists>j<MAX_NUM_KEYS. \<not> is_dummy (curr_pressed_keys a ! j) \<and>
            keys_to_send c ! l = curr_pressed_keys a ! j \<and>
            codes_to_send c ! l = place_code (curr_pressed_keys a ! j) a))"
  proof (cases rule: slotwiseD)
    case same
    from assms(3) l show ?thesis
    proof (cases rule: slotwiseD)
      case s2: same
      with same show ?thesis by simp
    next
      case (new j)
      with same have "is_dummy (keys_to_send a ! l)" "j < MAX_NUM_KEYS"
        "\<not> is_dummy (curr_pressed_keys a ! j)" "keys_to_send c ! l = curr_pressed_keys a ! j"
        "codes_to_send c ! l = place_code (curr_pressed_keys a ! j) a"
        by (simp_all add: pc cu)
      then show ?thesis by blast
    qed
  next
    case (new j)
    then have nd: "\<not> is_dummy (keys_to_send b ! l)" by simp
    from assms(3) l
    have "keys_to_send c ! l = keys_to_send b ! l \<and> codes_to_send c ! l = codes_to_send b ! l"
      by (cases rule: slotwiseD) (use nd in simp_all)
    with new show ?thesis by auto
  qed
qed

lemma slotwise_occupied:
  assumes "slotwise b b'" "l < MAX_NUM_KEYS" "\<not> is_dummy (keys_to_send b ! l)"
  shows "keys_to_send b' ! l = keys_to_send b ! l \<and> codes_to_send b' ! l = codes_to_send b ! l"
  using assms(1,2) by (cases rule: slotwiseD) (use assms(3) in simp_all)

lemma slotwise_resident:
  assumes "slotwise b b'" "\<not> is_dummy k" "resident b k"
  shows "resident b' k"
proof -
  from assms(3) obtain i where i: "i < MAX_NUM_KEYS" "key_eq (keys_to_send b ! i) k"
    by (auto simp: resident_def)
  with assms(2) have "\<not> is_dummy (keys_to_send b ! i)" by (simp add: key_eq_dummy)
  from slotwise_occupied[OF assms(1) i(1) this] i show ?thesis
    by (auto simp: resident_def)
qed

lemma slotwise_has_free:
  assumes "slotwise b b'" "has_free b'"
  shows "has_free b"
proof -
  from assms(2) obtain l where l: "l < MAX_NUM_KEYS" "is_dummy (keys_to_send b' ! l)"
    by (auto simp: has_free_def)
  have "is_dummy (keys_to_send b ! l)"
  proof (rule ccontr)
    assume "\<not> is_dummy (keys_to_send b ! l)"
    from slotwise_occupied[OF assms(1) l(1) this] l(2) this show False by simp
  qed
  with l(1) show ?thesis by (auto simp: has_free_def)
qed

lemma place_loop:
  assumes len: "length (keys_to_send b) = MAX_NUM_KEYS" "length (codes_to_send b) = MAX_NUM_KEYS"
    and "is": "\<forall>i\<in>set is. i < MAX_NUM_KEYS"
  shows "same_frame b (fold place_slot is b) \<and>
    slotwise b (fold place_slot is b) \<and>
    (no_duplicates b \<longrightarrow> no_duplicates (fold place_slot is b)) \<and>
    (\<forall>i\<in>set is. \<not> is_dummy (curr_pressed_keys b ! i) \<longrightarrow>
       resident (fold place_slot is b) (curr_pressed_keys b ! i) \<or> \<not> has_free (fold place_slot is b))"
  using "is"
proof (induction "is" rule: rev_induct)
  case Nil
  then show ?case by (simp add: same_frame_refl slotwise_refl)
next
  case (snoc i "is")
  let ?b1 = "fold place_slot is b"
  let ?b2 = "place_slot i ?b1"
  from snoc have ih: "same_frame b ?b1" "slotwise b ?b1" "no_duplicates b \<longrightarrow> no_duplicates ?b1"
     "\<forall>j\<in>set is. \<not> is_dummy (curr_pressed_keys b ! j) \<longrightarrow>
       resident ?b1 (curr_pressed_keys b ! j) \<or> \<not> has_free ?b1"
    by auto
  have i: "i < MAX_NUM_KEYS" using snoc.prems by simp
  have len1: "length (keys_to_send ?b1) = MAX_NUM_KEYS" "length (codes_to_send ?b1) = MAX_NUM_KEYS"
    using ih(1) len by (simp_all add: same_frame_def)
  have cu: "curr_pressed_keys ?b1 = curr_pressed_keys b"
    using ih(1) by (simp add: same_frame_def)
  note st = place_slot_step[OF len1 i]
  have sf: "same_frame b ?b2" using ih(1) st(1) by (rule same_frame_trans)
  have sw: "slotwise b ?b2" using ih(1,2) st(2) by (rule slotwise_trans)
  have nd: "no_duplicates b \<longrightarrow> no_duplicates ?b2" using ih(3) st(3) by blast
  have res: "\<forall>j\<in>set (is @ [i]). \<not> is_dummy (curr_pressed_keys b ! j) \<longrightarrow>
       resident ?b2 (curr_pressed_keys b ! j) \<or> \<not> has_free ?b2"
  proof (intro ballI impI)
    fix j assume j: "j \<in> set (is @ [i])" and k: "\<not> is_dummy (curr_pressed_keys b ! j)"
    show "resident ?b2 (curr_pressed_keys b ! j) \<or> \<not> has_free ?b2"
    proof (cases "j = i")
      case True
      with st(4) k cu have "resident ?b2 (curr_pressed_keys b ! j) \<or> \<not> has_free ?b1" by simp
      with slotwise_has_free[OF st(2)] show ?thesis by blast
    next
      case False
      with j ih(4) k have "resident ?b1 (curr_pressed_keys b ! j) \<or> \<not> has_free ?b1" by simp
      with slotwise_resident[OF st(2) k] slotwise_has_free[OF st(2)] show ?thesis by blast
    qed
  qed
  show ?case using sf sw nd res by simp
qed

lemma pigeonhole_slots:
  assumes nd: "no_duplicates b" and fp: "from_pressed b" and nf: "\<not> has_free b"
    and j: "j < MAX_NUM_KEYS"
  shows "resident b (curr_pressed_keys b ! j)"
proof (rule ccontr)
  assume nr: "\<not> resident b (curr_pressed_keys b ! j)"
  let ?S = "{..<MAX_NUM_KEYS}"
  have occ: "\<not> is_dummy (keys_to_send b ! i)" if "i < MAX_NUM_KEYS" for i
    using nf that by (auto simp: has_free_def)
  have "\<forall>i\<in>?S. \<exists>p. p < MAX_NUM_KEYS \<and> key_eq (keys_to_send b ! i) (curr_pressed_keys b ! p)"
    using fp occ by (auto simp: from_pressed_def)
  then obtain f where f: "\<And>i. i \<in> ?S \<Longrightarrow> f i < MAX_NUM_KEYS \<and> key_eq (keys_to_send b ! i) (curr_pressed_keys b ! f i)"
    by metis
  have fj: "f i \<noteq> j" if "i \<in> ?S" for i
    using f[OF that] nr that by (auto simp: resident_def)
  have inj: "inj_on f ?S"
  proof (rule inj_onI)
    fix x y assume xy: "x \<in> ?S" "y \<in> ?S" "f x = f y"
    from f[OF xy(1)] f[OF xy(2)] xy(3)
    have "key_eq (keys_to_send b ! x) (keys_to_send b ! y)"
      by (metis key_eq_sym key_eq_trans)
    with nd occ xy(1,2) show "x = y"
      unfolding no_duplicates_def by (metis lessThan_iff)
  qed
  have "f ` ?S \<subseteq> ?S - {j}" using f fj by auto
  then have "card (f ` ?S) \<le> card (?S - {j})" by (intro card_mono) auto
  moreover have "card (f ` ?S) = card ?S" using inj by (rule card_image)
  moreover have "card (?S - {j}) < card ?S" using j by (intro psubset_card_mono) auto
  ultimately show False by simp
qed

subsection \<open>Resolution: release, then placement\<close>

lemma set_media_fields [simp]:
  "keys_to_send (set_media b) = keys_to_send b"
  "codes_to_send (set_media b) = codes_to_send b"
  "curr_pressed_keys (set_media b) = curr_pressed_keys b"
  "just_released_keys (set_media b) = just_released_keys b"
  "all_pressed_keys (set_media b) = all_pressed_keys b"
  "num_keys_released (set_media b) = num_keys_released b"
  "num_keys_pressed (set_media b) = num_keys_pressed b"
  "fn_pressed (set_media b) = fn_pressed b"
  "fn2_pressed (set_media b) = fn2_pressed b"
  "pressed_media (set_media b) = pressed_media b"
  by (simp_all add: set_media_def)

lemma current_media_set_media:
  "current_media (set_media b) =
     (if is_dummy (pressed_media b) then 0
      else if has_second (pressed_media b) \<and> fn_pressed b then second (pressed_media b)
      else code (pressed_media b))"
  by (simp add: set_media_def)

lemma update_keys_to_send_Inr:
  "remove_released_keys u b = Inr b1 \<Longrightarrow>
   update_keys_to_send u b = Inr (set_media (fold place_slot [0..<MAX_NUM_KEYS] b1))"
  by (simp add: update_keys_to_send_def)

lemma remove_phase:
  assumes "wf_board b" "num_keys_released b = 0"
  shows "\<exists>b1. remove_released_keys u b = Inr b1 \<and> wf_board b1 \<and>
     (\<forall>i<MAX_NUM_KEYS. keys_to_send b1 ! i = (if released b i then Key0 u else keys_to_send b ! i)) \<and>
     (\<forall>i<MAX_NUM_KEYS. codes_to_send b1 ! i = (if released b i then KEY_DUMMY else codes_to_send b ! i)) \<and>
     just_released_keys b1 =
       map (\<lambda>i. keys_to_send b ! i) (filter (released b) [0..<MAX_NUM_KEYS]) @
       drop (length (filter (released b) [0..<MAX_NUM_KEYS])) (just_released_keys b) \<and>
     num_keys_released b1 = length (filter (released b) [0..<MAX_NUM_KEYS]) \<and>
     curr_pressed_keys b1 = curr_pressed_keys b \<and>
     fn_pressed b1 = fn_pressed b \<and> fn2_pressed b1 = fn2_pressed b \<and>
     pressed_media b1 = pressed_media b \<and>
     num_keys_pressed b1 = num_keys_pressed b"
proof -
  from assms have len: "length (just_released_keys b) = MAX_NUM_KEYS"
    "length (keys_to_send b) = MAX_NUM_KEYS" "length (codes_to_send b) = MAX_NUM_KEYS"
    "length (curr_pressed_keys b) = MAX_NUM_KEYS" "length (all_pressed_keys b) = NUM_ROWS * NUM_COLS"
    by (simp_all add: wf_board_def)
  from remove_result[OF assms(2) len(1-3), of "[0..<MAX_NUM_KEYS]" u]
  obtain b1 where b1: "foreach (release_slot u) [0..<MAX_NUM_KEYS] b = Inr b1"
     "keys_to_send b1 = map (\<lambda>i. if i \<in> set [0..<MAX_NUM_KEYS] \<and> released b i then Key0 u else keys_to_send b ! i) [0..<MAX_NUM_KEYS]"
     "codes_to_send b1 = map (\<lambda>i. if i \<in> set [0..<MAX_NUM_KEYS] \<and> released b i then KEY_DUMMY else codes_to_send b ! i) [0..<MAX_NUM_KEYS]"
     "just_released_keys b1 =
       map (\<lambda>i. keys_to_send b ! i) (filter (released b) [0..<MAX_NUM_KEYS]) @
       drop (length (filter (released b) [0..<MAX_NUM_KEYS])) (just_released_keys b)"
     "num_keys_released b1 = length (filter (released b) [0..<MAX_NUM_KEYS])"
     "curr_pressed_keys b1 = curr_pressed_keys b"
     "all_pressed_keys b1 = all_pressed_keys b"
     "fn_pressed b1 = fn_pressed b" "fn2_pressed b1 = fn2_pressed b"
     "pressed_media b1 = pressed_media b"
     "num_keys_pressed b1 = num_keys_pressed b"
    by auto
  have "length (filter (released b) [0..<MAX_NUM_KEYS]) \<le> MAX_NUM_KEYS"
    using length_filter_le[of "released b" "[0..<MAX_NUM_KEYS]"] by simp
  then have wf: "wf_board b1"
    using len by (simp add: wf_board_def b1)
  show ?thesis
    using b1(1) wf b1(4-11) by (simp add: remove_released_keys_def b1(2,3))
qed

lemma slotwise_from_pressed:
  assumes "same_frame b b'" "slotwise b b'" "from_pressed b"
  shows "from_pressed b'"
  unfolding from_pressed_def
proof (intro allI impI)
  fix i assume i: "i < MAX_NUM_KEYS" and nd: "\<not> is_dummy (keys_to_send b' ! i)"
  have cu: "curr_pressed_keys b' = curr_pressed_keys b"
    using assms(1) by (simp add: same_frame_def)
  from assms(2) i
  show "\<exists>j<MAX_NUM_KEYS. key_eq (keys_to_send b' ! i) (curr_pressed_keys b' ! j)"
  proof (cases rule: slotwiseD)
    case same
    with assms(3) i nd show ?thesis by (simp add: from_pressed_def cu)
  next
    case (new j)
    then show ?thesis using key_eq_refl by (auto simp: cu)
  qed
qed

lemma slotwise_empty_neutral:
  assumes "slotwise b b'" "empty_slots_neutral b"
  shows "empty_slots_neutral b'"
  unfolding empty_slots_neutral_def
proof (intro allI impI)
  fix i assume i: "i < MAX_NUM_KEYS" and d: "is_dummy (keys_to_send b' ! i)"
  from assms(1) i show "codes_to_send b' ! i = KEY_DUMMY"
  proof (cases rule: slotwiseD)
    case same
    with assms(2) i d show ?thesis by (simp add: empty_slots_neutral_def)
  next
    case (new j)
    with d show ?thesis by simp
  qed
qed

lemma slotwise_neutral_empty:
  assumes "slotwise b b'" "neutral_slots_empty b"
    and "\<forall>j<MAX_NUM_KEYS. \<not> is_dummy (curr_pressed_keys b ! j) \<longrightarrow>
           place_code (curr_pressed_keys b ! j) b \<noteq> KEY_DUMMY"
  shows "neutral_slots_empty b'"
  unfolding neutral_slots_empty_def
proof (intro allI impI)
  fix i assume i: "i < MAX_NUM_KEYS" and d: "codes_to_send b' ! i = KEY_DUMMY"
  from assms(1) i show "is_dummy (keys_to_send b' ! i)"
  proof (cases rule: slotwiseD)
    case same
    with assms(2) i d show ?thesis by (simp add: neutral_slots_empty_def)
  next
    case (new j)
    with d assms(3) show ?thesis by auto
  qed
qed

lemma slotwise_all_placed:
  assumes sf: "same_frame b b'" and sw: "slotwise b b'"
    and nd: "no_duplicates b'" and fp: "from_pressed b"
    and tried: "\<forall>i<MAX_NUM_KEYS. \<not> is_dummy (curr_pressed_keys b ! i) \<longrightarrow>
       resident b' (curr_pressed_keys b ! i) \<or> \<not> has_free b'"
    and j: "j < MAX_NUM_KEYS" "\<not> is_dummy (curr_pressed_keys b ! j)"
  shows "resident b' (curr_pressed_keys b ! j)"
proof (cases "has_free b'")
  case True
  with tried j show ?thesis by blast
next
  case False
  have cu: "curr_pressed_keys b' = curr_pressed_keys b"
    using sf by (simp add: same_frame_def)
  from pigeonhole_slots[OF nd slotwise_from_pressed[OF sf sw fp] False j(1)]
  show ?thesis by (simp add: cu)
qed

lemma is_dummy_Key0 [simp]: "is_dummy (Key0 u)"
  by (simp add: is_dummy_def Key0_def)

lemma released_from_pressed:
  assumes "\<forall>i<MAX_NUM_KEYS. keys_to_send b1 ! i = (if released b i then Key0 u else keys_to_send b ! i)"
    and "curr_pressed_keys b1 = curr_pressed_keys b"
  shows "from_pressed b1"
  unfolding from_pressed_def
proof (intro allI impI)
  fix i assume i: "i < MAX_NUM_KEYS" and nd: "\<not> is_dummy (keys_to_send b1 ! i)"
  from assms(1) i nd have "\<not> released b i" "keys_to_send b1 ! i = keys_to_send b ! i"
    by (auto split: if_splits)
  with nd show "\<exists>j<MAX_NUM_KEYS. key_eq (keys_to_send b1 ! i) (curr_pressed_keys b1 ! j)"
    by (simp add: released_def assms(2))
qed

lemma released_no_duplicates:
  assumes "\<forall>i<MAX_NUM_KEYS. keys_to_send b1 ! i = (if released b i then Key0 u else keys_to_send b ! i)"
    and "no_duplicates b"
  shows "no_duplicates b1"
  unfolding no_duplicates_def
proof (intro allI impI)
  fix i j assume ij: "i < MAX_NUM_KEYS" "j < MAX_NUM_KEYS" "i \<noteq> j"
    and nd: "\<not> is_dummy (keys_to_send b1 ! i)"
  from assms(1) ij(1) nd have ki: "keys_to_send b1 ! i = keys_to_send b ! i"
    by (auto split: if_splits)
  show "\<not> key_eq (keys_to_send b1 ! i) (keys_to_send b1 ! j)"
  proof (cases "released b j")
    case True
    with assms(1) ij(2) have "is_dummy (keys_to_send b1 ! j)" by simp
    with nd show ?thesis by (auto dest: key_eq_dummy)
  next
    case False
    with assms(1) ij(2) have "keys_to_send b1 ! j = keys_to_send b ! j" by simp
    with ki nd assms(2) ij show ?thesis by (simp add: no_duplicates_def)
  qed
qed

lemma released_empty_neutral:
  assumes "\<forall>i<MAX_NUM_KEYS. keys_to_send b1 ! i = (if released b i then Key0 u else keys_to_send b ! i)"
    and "\<forall>i<MAX_NUM_KEYS. codes_to_send b1 ! i = (if released b i then KEY_DUMMY else codes_to_send b ! i)"
    and "empty_slots_neutral b"
  shows "empty_slots_neutral b1"
  using assms by (auto simp: empty_slots_neutral_def)

lemma released_neutral_empty:
  assumes "\<forall>i<MAX_NUM_KEYS. keys_to_send b1 ! i = (if released b i then Key0 u else keys_to_send b ! i)"
    and "\<forall>i<MAX_NUM_KEYS. codes_to_send b1 ! i = (if released b i then KEY_DUMMY else codes_to_send b ! i)"
    and "neutral_slots_empty b"
  shows "neutral_slots_empty b1"
  using assms by (auto simp: neutral_slots_empty_def)

text \<open>The whole of \<^verbatim>\<open>update_keys_to_send\<close>, from a board as \<^verbatim>\<open>update\<close> hands it over.\<close>

lemma resolution:
  assumes wf: "wf_board b" and z: "num_keys_released b = 0"
  shows "\<exists>b1 b'. remove_released_keys u b = Inr b1 \<and> update_keys_to_send u b = Inr b' \<and>
     b' = set_media (fold place_slot [0..<MAX_NUM_KEYS] b1) \<and>
     wf_board b1 \<and> wf_board b' \<and>
     (\<forall>i<MAX_NUM_KEYS. keys_to_send b1 ! i = (if released b i then Key0 u else keys_to_send b ! i)) \<and>
     (\<forall>i<MAX_NUM_KEYS. codes_to_send b1 ! i = (if released b i then KEY_DUMMY else codes_to_send b ! i)) \<and>
     just_released_keys b1 =
       map (\<lambda>i. keys_to_send b ! i) (filter (released b) [0..<MAX_NUM_KEYS]) @
       drop (length (filter (released b) [0..<MAX_NUM_KEYS])) (just_released_keys b) \<and>
     num_keys_released b1 = length (filter (released b) [0..<MAX_NUM_KEYS]) \<and>
     curr_pressed_keys b1 = curr_pressed_keys b \<and>
     fn_pressed b1 = fn_pressed b \<and> fn2_pressed b1 = fn2_pressed b \<and>
     pressed_media b1 = pressed_media b \<and>
     num_keys_pressed b1 = num_keys_pressed b \<and>
     same_frame b1 b' \<and> slotwise b1 b' \<and>
     from_pressed b1 \<and> from_pressed b' \<and>
     (no_duplicates b \<longrightarrow> no_duplicates b1 \<and> no_duplicates b' \<and>
        (\<forall>j<MAX_NUM_KEYS. \<not> is_dummy (curr_pressed_keys b ! j) \<longrightarrow> resident b' (curr_pressed_keys b ! j)))"
proof -
  from remove_phase[OF wf z, of u] obtain b1 where b1:
    "remove_released_keys u b = Inr b1" "wf_board b1"
    "\<forall>i<MAX_NUM_KEYS. keys_to_send b1 ! i = (if released b i then Key0 u else keys_to_send b ! i)"
    "\<forall>i<MAX_NUM_KEYS. codes_to_send b1 ! i = (if released b i then KEY_DUMMY else codes_to_send b ! i)"
    "just_released_keys b1 =
       map (\<lambda>i. keys_to_send b ! i) (filter (released b) [0..<MAX_NUM_KEYS]) @
       drop (length (filter (released b) [0..<MAX_NUM_KEYS])) (just_released_keys b)"
    "num_keys_released b1 = length (filter (released b) [0..<MAX_NUM_KEYS])"
    "curr_pressed_keys b1 = curr_pressed_keys b"
    "fn_pressed b1 = fn_pressed b" "fn2_pressed b1 = fn2_pressed b"
    "pressed_media b1 = pressed_media b"
    "num_keys_pressed b1 = num_keys_pressed b"
    by blast
  define p where "p = fold place_slot [0..<MAX_NUM_KEYS] b1"
  define b' where "b' = set_media p"
  have run: "update_keys_to_send u b = Inr b'"
    by (simp add: update_keys_to_send_Inr[OF b1(1)] b'_def p_def)
  have len: "length (keys_to_send b1) = MAX_NUM_KEYS" "length (codes_to_send b1) = MAX_NUM_KEYS"
    using b1(2) by (simp_all add: wf_board_def)
  from place_loop[OF len, of "[0..<MAX_NUM_KEYS]"]
  have pl: "same_frame b1 p" "slotwise b1 p" "no_duplicates b1 \<longrightarrow> no_duplicates p"
    "\<forall>i\<in>set [0..<MAX_NUM_KEYS]. \<not> is_dummy (curr_pressed_keys b1 ! i) \<longrightarrow>
       resident p (curr_pressed_keys b1 ! i) \<or> \<not> has_free p"
    by (simp_all add: p_def)
  have sf: "same_frame b1 b'" using pl(1) by (simp add: same_frame_def b'_def)
  have sw: "slotwise b1 b'" using pl(2) by (simp add: slotwise_def b'_def)
  have wf': "wf_board b'"
    using b1(2) sf by (simp add: wf_board_def same_frame_def b'_def)
  have fp1: "from_pressed b1" using b1(3,7) by (rule released_from_pressed)
  have fp': "from_pressed b'" using sf sw fp1 by (rule slotwise_from_pressed)
  have nd: "no_duplicates b1 \<and> no_duplicates b' \<and>
        (\<forall>j<MAX_NUM_KEYS. \<not> is_dummy (curr_pressed_keys b ! j) \<longrightarrow> resident b' (curr_pressed_keys b ! j))"
    if n: "no_duplicates b"
  proof -
    have n1: "no_duplicates b1" using b1(3) n by (rule released_no_duplicates)
    with pl(3) have n': "no_duplicates b'" by (simp add: no_duplicates_def b'_def)
    have tried: "\<forall>i<MAX_NUM_KEYS. \<not> is_dummy (curr_pressed_keys b1 ! i) \<longrightarrow>
       resident b' (curr_pressed_keys b1 ! i) \<or> \<not> has_free b'"
      using pl(4) by (simp add: resident_def has_free_def b'_def)
    have "resident b' (curr_pressed_keys b ! j)"
      if "j < MAX_NUM_KEYS" "\<not> is_dummy (curr_pressed_keys b ! j)" for j
      using slotwise_all_placed[OF sf sw n' fp1 tried, of j] that by (simp add: b1(7))
    with n1 n' show ?thesis by blast
  qed
  show ?thesis
    using b1 run wf' sf sw fp1 fp' nd unfolding b'_def p_def by blast
qed

subsection \<open>A whole cycle\<close>

lemma begin_cycle_fields:
  assumes "wf_board b"
  shows "wf_board (begin_cycle u b)"
    and "curr_pressed_keys (begin_cycle u b) = replicate MAX_NUM_KEYS (Key0 u)"
    and "just_released_keys (begin_cycle u b) = replicate MAX_NUM_KEYS (Key0 u)"
    and "keys_to_send (begin_cycle u b) = keys_to_send b"
    and "codes_to_send (begin_cycle u b) = codes_to_send b"
    and "num_keys_pressed (begin_cycle u b) = 0"
    and "num_keys_released (begin_cycle u b) = 0"
    and "tot_num_keys_pressed (begin_cycle u b) = 0"
    and "fn_pressed (begin_cycle u b) = False"
    and "fn2_pressed (begin_cycle u b) = False"
    and "pressed_media (begin_cycle u b) = Key0 u"
  using assms
  by (simp_all add: begin_cycle_def reset_pressed_keys_def wf_board_def fill_full)

lemma pressed_iff:
  "k \<in> set (pressed keymap pins) \<longleftrightarrow>
   (\<exists>row<NUM_ROWS. \<exists>col<NUM_COLS. k = keymap row col \<and> \<not> is_dummy k \<and> pins row col)"
  by (auto simp: pressed_def)

lemma pressed_not_dummy: "k \<in> set (pressed keymap pins) \<Longrightarrow> \<not> is_dummy k"
  by (auto simp: pressed_iff)

lemma pressed_known:
  "modifiers_known keymap \<Longrightarrow> k \<in> set (pressed keymap pins) \<Longrightarrow> - 8 \<le> code k"
  by (auto simp: pressed_iff modifiers_known_def)

lemma is_fn2_not_fn: "is_fn2 k \<Longrightarrow> \<not> is_fn k"
  by (simp add: is_fn_def is_fn2_def KEY_FN_def KEY_FN2_def)

lemma length_ordinary_pressed: "length (ordinary_pressed keymap pins) \<le> MAX_NUM_KEYS"
  by (simp add: ordinary_pressed_def)

lemma ordinary_pressed_subset:
  "k \<in> set (ordinary_pressed keymap pins) \<Longrightarrow> k \<in> set (pressed keymap pins) \<and> ordinary k"
  by (auto simp: ordinary_pressed_def dest: in_set_takeD)

lemma scan_cycle:
  assumes wf: "wf_board b" and mk: "modifiers_known keymap"
  shows "\<exists>b3. scan_keys K keymap pins (begin_cycle u b) = Inr b3 \<and> wf_board b3 \<and>
     num_keys_released b3 = 0 \<and>
     curr_pressed_keys b3 =
       ordinary_pressed keymap pins @
       replicate (MAX_NUM_KEYS - length (ordinary_pressed keymap pins)) (Key0 u) \<and>
     keys_to_send b3 = keys_to_send b \<and>
     codes_to_send b3 = codes_to_send b \<and>
     just_released_keys b3 = replicate MAX_NUM_KEYS (Key0 u) \<and>
     fn_pressed b3 = (\<exists>k\<in>set (pressed keymap pins). is_fn k) \<and>
     fn2_pressed b3 = (\<exists>k\<in>set (pressed keymap pins). is_fn2 k) \<and>
     pressed_media b3 =
       (if filter media_key (pressed keymap pins) = [] then Key0 u
        else last (filter media_key (pressed keymap pins))) \<and>
     num_keys_pressed b3 = length (filter ordinary (pressed keymap pins)) \<and>
     tot_num_keys_pressed b3 = length (pressed keymap pins)"
proof -
  let ?b = "begin_cycle u b"
  let ?ks = "pressed keymap pins"
  note bc = begin_cycle_fields[OF wf, of u]
  have tr: "\<forall>k\<in>set ?ks. translated k \<longrightarrow> - 6 \<le> code k"
    using pressed_known[OF mk] translated_range by blast
  have len: "length (curr_pressed_keys ?b) = MAX_NUM_KEYS" by (simp add: bc(2))
  from scan_result[OF bc(8) bc(6) len length_pressed tr, of K]
  obtain b3 where b3: "foreach (scan_key K) ?ks ?b = Inr b3"
     "tot_num_keys_pressed b3 = length ?ks"
     "num_keys_pressed b3 = length (filter ordinary ?ks)"
     "curr_pressed_keys b3 =
       take MAX_NUM_KEYS (filter ordinary ?ks) @ drop (length (filter ordinary ?ks)) (curr_pressed_keys ?b)"
     "fn_pressed b3 = (fn_pressed ?b \<or> (\<exists>k\<in>set ?ks. is_fn k))"
     "fn2_pressed b3 = (fn2_pressed ?b \<or> (\<exists>k\<in>set ?ks. \<not> is_fn k \<and> is_fn2 k))"
     "pressed_media b3 = (if filter media_key ?ks = [] then pressed_media ?b else last (filter media_key ?ks))"
     "keys_to_send b3 = keys_to_send ?b"
     "codes_to_send b3 = codes_to_send ?b"
     "just_released_keys b3 = just_released_keys ?b"
     "num_keys_released b3 = num_keys_released ?b"
     "current_media b3 = current_media ?b"
     "length (all_pressed_keys b3) = length (all_pressed_keys ?b)"
    by blast
  have run: "scan_keys K keymap pins ?b = Inr b3"
    by (simp add: scan_keys_pressed b3(1))
  have cu: "curr_pressed_keys b3 =
       ordinary_pressed keymap pins @
       replicate (MAX_NUM_KEYS - length (ordinary_pressed keymap pins)) (Key0 u)"
    by (simp add: b3(4) bc(2) ordinary_pressed_def min_def)
  have wf3: "wf_board b3"
    using bc(1) length_ordinary_pressed[of keymap pins]
    by (simp add: wf_board_def cu b3(8,9,10,13))
  have f2: "fn2_pressed b3 = (\<exists>k\<in>set ?ks. is_fn2 k)"
    using is_fn2_not_fn by (auto simp: b3(6) bc(10))
  show ?thesis
    using run wf3 cu f2 b3(2,3) by (simp add: b3 bc)
qed

lemma curr_lookup:
  assumes cu: "curr_pressed_keys b3 =
       ordinary_pressed keymap pins @
       replicate (MAX_NUM_KEYS - length (ordinary_pressed keymap pins)) (Key0 u)"
    and k: "\<not> is_dummy k"
  shows "(\<exists>j<MAX_NUM_KEYS. key_eq k (curr_pressed_keys b3 ! j)) \<longleftrightarrow>
         (\<exists>k'\<in>set (ordinary_pressed keymap pins). key_eq k k')"
proof
  let ?op = "ordinary_pressed keymap pins"
  assume "\<exists>j<MAX_NUM_KEYS. key_eq k (curr_pressed_keys b3 ! j)"
  then obtain j where j: "j < MAX_NUM_KEYS" "key_eq k (curr_pressed_keys b3 ! j)" by blast
  show "\<exists>k'\<in>set ?op. key_eq k k'"
  proof (cases "j < length ?op")
    case True
    with j(2) have "key_eq k (?op ! j)" by (simp add: cu nth_append)
    with True show ?thesis using nth_mem by blast
  next
    case False
    with j have "curr_pressed_keys b3 ! j = Key0 u" by (simp add: cu nth_append)
    with j(2) k show ?thesis by (auto dest: key_eq_dummy)
  qed
next
  let ?op = "ordinary_pressed keymap pins"
  assume "\<exists>k'\<in>set ?op. key_eq k k'"
  then obtain j where j: "j < length ?op" "key_eq k (?op ! j)"
    by (auto simp: in_set_conv_nth)
  then have "key_eq k (curr_pressed_keys b3 ! j)" by (simp add: cu nth_append)
  moreover have "j < MAX_NUM_KEYS" using j(1) length_ordinary_pressed[of keymap pins] by simp
  ultimately show "\<exists>j<MAX_NUM_KEYS. key_eq k (curr_pressed_keys b3 ! j)" by blast
qed

lemma curr_nth:
  assumes cu: "curr_pressed_keys b3 =
       ordinary_pressed keymap pins @
       replicate (MAX_NUM_KEYS - length (ordinary_pressed keymap pins)) (Key0 u)"
    and j: "j < MAX_NUM_KEYS"
  shows "\<not> is_dummy (curr_pressed_keys b3 ! j) \<longleftrightarrow> j < length (ordinary_pressed keymap pins)"
    and "j < length (ordinary_pressed keymap pins) \<Longrightarrow>
         curr_pressed_keys b3 ! j = ordinary_pressed keymap pins ! j"
proof -
  let ?op = "ordinary_pressed keymap pins"
  show "j < length ?op \<Longrightarrow> curr_pressed_keys b3 ! j = ?op ! j"
    by (simp add: cu nth_append)
  show "\<not> is_dummy (curr_pressed_keys b3 ! j) \<longleftrightarrow> j < length ?op"
  proof (cases "j < length ?op")
    case True
    then have "?op ! j \<in> set ?op" by simp
    then have "\<not> is_dummy (?op ! j)"
      using ordinary_pressed_subset pressed_not_dummy by blast
    with True show ?thesis by (simp add: cu nth_append)
  next
    case False
    with j show ?thesis by (simp add: cu nth_append)
  qed
qed

lemma scan_cycle':
  assumes "wf_board b" "modifiers_known keymap"
  shows "\<exists>b3. scan_keys K keymap pins (begin_cycle u b) = Inr b3 \<and> scanned keymap pins u b b3"
  using scan_cycle[OF assms, of K pins u] unfolding scanned_def by blast

lemma resolution':
  assumes "wf_board b" "num_keys_released b = 0"
  shows "\<exists>b1 b'. remove_released_keys u b = Inr b1 \<and> update_keys_to_send u b = Inr b' \<and>
           resolved u b b1 b'"
proof -
  from resolution[OF assms, of u] obtain b1 b' where
    r: "remove_released_keys u b = Inr b1 \<and> update_keys_to_send u b = Inr b' \<and>
     b' = set_media (fold place_slot [0..<MAX_NUM_KEYS] b1) \<and>
     wf_board b1 \<and> wf_board b' \<and>
     (\<forall>i<MAX_NUM_KEYS. keys_to_send b1 ! i = (if released b i then Key0 u else keys_to_send b ! i)) \<and>
     (\<forall>i<MAX_NUM_KEYS. codes_to_send b1 ! i = (if released b i then KEY_DUMMY else codes_to_send b ! i)) \<and>
     just_released_keys b1 =
       map (\<lambda>i. keys_to_send b ! i) (filter (released b) [0..<MAX_NUM_KEYS]) @
       drop (length (filter (released b) [0..<MAX_NUM_KEYS])) (just_released_keys b) \<and>
     num_keys_released b1 = length (filter (released b) [0..<MAX_NUM_KEYS]) \<and>
     curr_pressed_keys b1 = curr_pressed_keys b \<and>
     fn_pressed b1 = fn_pressed b \<and> fn2_pressed b1 = fn2_pressed b \<and>
     pressed_media b1 = pressed_media b \<and>
     num_keys_pressed b1 = num_keys_pressed b \<and>
     same_frame b1 b' \<and> slotwise b1 b' \<and>
     from_pressed b1 \<and> from_pressed b' \<and>
     (no_duplicates b \<longrightarrow> no_duplicates b1 \<and> no_duplicates b' \<and>
        (\<forall>j<MAX_NUM_KEYS. \<not> is_dummy (curr_pressed_keys b ! j) \<longrightarrow> resident b' (curr_pressed_keys b ! j)))"
    by blast
  then have "set_media (fold place_slot [0..<MAX_NUM_KEYS] b1) = b'" by simp
  with r have "resolved u b b1 b'" unfolding resolved_def by blast
  with r show ?thesis by blast
qed

text \<open>One cycle, in three states: after the scan, after the release phase, at the end.\<close>

lemma cycle:
  assumes "wf_board b" "modifiers_known keymap"
  shows "\<exists>b3 b1 b'. scan_keys K keymap pins (begin_cycle u b) = Inr b3 \<and>
     remove_released_keys u b3 = Inr b1 \<and>
     update K keymap u pins b = Inr b' \<and>
     scanned keymap pins u b b3 \<and> resolved u b3 b1 b'"
proof -
  from scan_cycle'[OF assms, of K pins u] obtain b3 where
    b3: "scan_keys K keymap pins (begin_cycle u b) = Inr b3" "scanned keymap pins u b b3"
    by blast
  then have "wf_board b3" "num_keys_released b3 = 0" by (simp_all add: scanned_def)
  from resolution'[OF this, of u] obtain b1 b' where
    r: "remove_released_keys u b3 = Inr b1" "update_keys_to_send u b3 = Inr b'" "resolved u b3 b1 b'"
    by blast
  have "update K keymap u pins b = Inr b'"
    by (simp add: update_def b3(1) r(2))
  with b3 r show ?thesis by blast
qed

text \<open>The slots of the three states, against the keys pressed in the cycle.\<close>

lemma released_iff:
  assumes s: "scanned keymap pins u b b3" and i: "i < MAX_NUM_KEYS"
  shows "released b3 i \<longleftrightarrow>
     \<not> is_dummy (keys_to_send b ! i) \<and>
     \<not> (\<exists>k'\<in>set (ordinary_pressed keymap pins). key_eq (keys_to_send b ! i) k')"
proof (cases "is_dummy (keys_to_send b ! i)")
  case True
  with s show ?thesis by (simp add: released_def scanned_def)
next
  case False
  from s have cu: "curr_pressed_keys b3 =
       ordinary_pressed keymap pins @
       replicate (MAX_NUM_KEYS - length (ordinary_pressed keymap pins)) (Key0 u)"
    and ks: "keys_to_send b3 = keys_to_send b"
    by (simp_all add: scanned_def)
  show ?thesis
    unfolding released_def ks using curr_lookup[OF cu False] False by simp
qed

lemma held_slot:
  assumes s: "scanned keymap pins u b b3" and r: "resolved u b3 b1 b'"
    and i: "i < MAX_NUM_KEYS" and k: "\<not> is_dummy (keys_to_send b ! i)"
    and h: "\<exists>k'\<in>set (ordinary_pressed keymap pins). key_eq (keys_to_send b ! i) k'"
  shows "keys_to_send b' ! i = keys_to_send b ! i" and "codes_to_send b' ! i = codes_to_send b ! i"
proof -
  have nr: "\<not> released b3 i" using released_iff[OF s i] h by simp
  from r i nr have k1: "keys_to_send b1 ! i = keys_to_send b3 ! i"
    "codes_to_send b1 ! i = codes_to_send b3 ! i"
    by (simp_all add: resolved_def)
  from s have eq: "keys_to_send b3 = keys_to_send b" "codes_to_send b3 = codes_to_send b"
    by (simp_all add: scanned_def)
  from r have sw: "slotwise b1 b'" by (simp add: resolved_def)
  from slotwise_occupied[OF sw i] k k1 eq
  show "keys_to_send b' ! i = keys_to_send b ! i" "codes_to_send b' ! i = codes_to_send b ! i"
    by simp_all
qed

lemma filled_slot:
  assumes s: "scanned keymap pins u b b3" and r: "resolved u b3 b1 b'"
    and l: "l < MAX_NUM_KEYS" and occ: "\<not> is_dummy (keys_to_send b' ! l)"
  shows "(keys_to_send b' ! l = keys_to_send b ! l \<and> codes_to_send b' ! l = codes_to_send b ! l \<and>
          \<not> is_dummy (keys_to_send b ! l) \<and>
          (\<exists>k'\<in>set (ordinary_pressed keymap pins). key_eq (keys_to_send b ! l) k')) \<or>
         (keys_to_send b' ! l \<in> set (ordinary_pressed keymap pins) \<and>
          codes_to_send b' ! l = place_code (keys_to_send b' ! l) b' \<and>
          (is_dummy (keys_to_send b ! l) \<or>
           \<not> (\<exists>k'\<in>set (ordinary_pressed keymap pins). key_eq (keys_to_send b ! l) k')))"
proof -
  from s have eq: "keys_to_send b3 = keys_to_send b" "codes_to_send b3 = codes_to_send b"
    and cu: "curr_pressed_keys b3 =
       ordinary_pressed keymap pins @
       replicate (MAX_NUM_KEYS - length (ordinary_pressed keymap pins)) (Key0 u)"
    by (simp_all add: scanned_def)
  from r have sw: "slotwise b1 b'" and sf: "same_frame b1 b'"
    and c1: "curr_pressed_keys b1 = curr_pressed_keys b3"
    and k1: "keys_to_send b1 ! l = (if released b3 l then Key0 u else keys_to_send b3 ! l)"
    and d1: "codes_to_send b1 ! l = (if released b3 l then KEY_DUMMY else codes_to_send b3 ! l)"
    using l by (simp_all add: resolved_def)
  from sw l show ?thesis
  proof (cases rule: slotwiseD)
    case same
    with occ k1 have nr: "\<not> released b3 l" by (auto split: if_splits)
    with same k1 d1 eq occ have "keys_to_send b' ! l = keys_to_send b ! l"
      "codes_to_send b' ! l = codes_to_send b ! l" "\<not> is_dummy (keys_to_send b ! l)"
      by simp_all
    with nr released_iff[OF s l] show ?thesis by simp
  next
    case (new j)
    have pc: "place_code k b' = place_code k b1" for k
      by (rule place_code_frame) (use sf in \<open>simp_all add: same_frame_def\<close>)
    from new(3) curr_nth[OF cu new(2)] c1 have "j < length (ordinary_pressed keymap pins)"
      "curr_pressed_keys b1 ! j = ordinary_pressed keymap pins ! j"
      by simp_all
    then have mem: "curr_pressed_keys b1 ! j \<in> set (ordinary_pressed keymap pins)" by simp
    from new(1) k1 have "released b3 l \<or> is_dummy (keys_to_send b ! l)"
      by (auto simp: eq split: if_splits)
    with released_iff[OF s l] have "is_dummy (keys_to_send b ! l) \<or>
           \<not> (\<exists>k'\<in>set (ordinary_pressed keymap pins). key_eq (keys_to_send b ! l) k')"
      by blast
    with new mem show ?thesis by (simp add: pc)
  qed
qed

subsection \<open>The media key\<close>

lemma is_media_not_modifier:
  assumes "- 8 \<le> code k" "is_media k"
  shows "\<not> is_modifier k"
proof
  assume "is_modifier k"
  with assms(1) have "code k \<in> {- 8, - 7, - 6, - 5, - 4, - 3, - 2, - 1}"
    by (auto simp: is_modifier_def)
  with assms(2) show False
    by (auto simp: is_media_def)
qed

lemma is_media_not_fn: "is_media k \<Longrightarrow> \<not> is_fn k \<and> \<not> is_fn2 k"
  by (auto simp: is_media_def is_fn_def is_fn2_def KEY_FN_def KEY_FN2_def)

lemma is_media_not_dummy: "is_media k \<Longrightarrow> \<not> is_dummy k"
  by (auto simp: is_media_def is_dummy_def KEY_DUMMY_def)

lemma media_key_pressed:
  assumes "modifiers_known keymap"
  shows "filter media_key (pressed keymap pins) = filter is_media (pressed keymap pins)"
proof (rule filter_cong[OF refl])
  fix k assume "k \<in> set (pressed keymap pins)"
  then have "- 8 \<le> code k" by (rule pressed_known[OF assms])
  then show "media_key k = is_media k"
    using is_media_not_modifier[of k] is_media_not_fn[of k] by (auto simp: media_key_def)
qed

lemma upt_split:
  assumes "i < n"
  shows "[0..<n] = [0..<i] @ i # [Suc i..<n]"
proof -
  have "[0..<n] = [0..<i] @ [i..<n]"
    using upt_add_eq_append[of 0 i "n - i"] assms by simp
  also have "[i..<n] = i # [Suc i..<n]"
    using assms by (simp add: upt_conv_Cons)
  finally show ?thesis .
qed

text \<open>
  The last pressed key with a property, by its position: no pressed key with the
  property stands in a later row, or further right in the same row.
\<close>

lemma last_pressed:
  assumes r2: "r2 < NUM_ROWS" and c2: "c2 < NUM_COLS" and p: "pins r2 c2"
    and P: "P (keymap r2 c2)" and nd: "\<not> is_dummy (keymap r2 c2)"
    and later: "\<forall>r<NUM_ROWS. \<forall>c<NUM_COLS. pins r c \<and> P (keymap r c) \<longrightarrow> r < r2 \<or> (r = r2 \<and> c \<le> c2)"
  shows "filter P (pressed keymap pins) \<noteq> [] \<and> last (filter P (pressed keymap pins)) = keymap r2 c2"
proof -
  define Q where "Q = (\<lambda>r c. \<not> is_dummy (keymap r c) \<and> pins r c)"
  define f where "f = (\<lambda>r. map (keymap r) (filter (Q r) [0..<NUM_COLS]))"
  have pr: "pressed keymap pins = concat (map f [0..<NUM_ROWS])"
    by (simp add: pressed_def f_def Q_def)
  have rows: "filter P (concat (map f [Suc r2..<NUM_ROWS])) = []"
  proof -
    have "\<not> P k" if "r \<in> set [Suc r2..<NUM_ROWS]" "k \<in> set (f r)" for r k
    proof
      assume "P k"
      from that(2) obtain c where "c < NUM_COLS" "k = keymap r c" "pins r c"
        by (auto simp: f_def Q_def)
      moreover from that(1) have "r < NUM_ROWS" "r2 < r" by auto
      ultimately show False using later \<open>P k\<close> by (metis less_irrefl less_asym)
    qed
    then show ?thesis by (auto simp: filter_empty_conv)
  qed
  have cols: "filter P (map (keymap r2) (filter (Q r2) [Suc c2..<NUM_COLS])) = []"
  proof -
    have "\<not> P (keymap r2 c)" if "c \<in> set [Suc c2..<NUM_COLS]" "Q r2 c" for c
    proof
      assume "P (keymap r2 c)"
      moreover from that have "c < NUM_COLS" "pins r2 c" "c2 < c" by (auto simp: Q_def)
      ultimately show False using later r2 by (metis less_irrefl not_le)
    qed
    then show ?thesis by (auto simp: filter_empty_conv)
  qed
  have q2: "Q r2 c2" using p nd by (simp add: Q_def)
  have "filter P (f r2) =
      filter P (map (keymap r2) (filter (Q r2) [0..<c2])) @ [keymap r2 c2]"
    unfolding f_def upt_split[OF c2] using q2 P cols by simp
  then have "filter P (pressed keymap pins) =
      (filter P (concat (map f [0..<r2])) @ filter P (map (keymap r2) (filter (Q r2) [0..<c2])))
      @ [keymap r2 c2]"
    unfolding pr upt_split[OF r2] using rows by simp
  then show ?thesis by simp
qed

lemma media_code_fn2:
  assumes "filter (\<lambda>k. \<not> is_fn2 k) xs = filter (\<lambda>k. \<not> is_fn2 k) ys"
  shows "filter is_media xs = filter is_media ys"
    and "(\<exists>k\<in>set xs. is_fn k) \<longleftrightarrow> (\<exists>k\<in>set ys. is_fn k)"
proof -
  have m: "filter is_media zs = filter is_media (filter (\<lambda>k. \<not> is_fn2 k) zs)" for zs
    using is_media_not_fn by (auto simp: filter_filter intro: filter_cong)
  from m[of xs] m[of ys] assms show "filter is_media xs = filter is_media ys" by simp
  have f: "(\<exists>k\<in>set zs. is_fn k) \<longleftrightarrow> (\<exists>k\<in>set (filter (\<lambda>k. \<not> is_fn2 k) zs). is_fn k)" for zs
    using is_fn2_not_fn by auto
  from f[of xs] f[of ys] assms show "(\<exists>k\<in>set xs. is_fn k) \<longleftrightarrow> (\<exists>k\<in>set ys. is_fn k)" by simp
qed

lemma cycle_media:
  assumes "wf_board b" "modifiers_known keymap"
  shows "\<exists>b'. update K keymap u pins b = Inr b' \<and>
     current_media b' =
       (if filter is_media (pressed keymap pins) = [] then 0
        else if has_second (last (filter is_media (pressed keymap pins))) \<and>
                (\<exists>k\<in>set (pressed keymap pins). is_fn k)
             then second (last (filter is_media (pressed keymap pins)))
             else code (last (filter is_media (pressed keymap pins))))"
proof -
  let ?ms = "filter is_media (pressed keymap pins)"
  from cycle[OF assms, of K pins u] obtain b3 b1 b' where
    c: "update K keymap u pins b = Inr b'" "scanned keymap pins u b b3" "resolved u b3 b1 b'"
    by blast
  from c(3) have e: "set_media (fold place_slot [0..<MAX_NUM_KEYS] b1) = b'"
    and sf: "same_frame b1 b'" and f1: "fn_pressed b1 = fn_pressed b3"
    and m1: "pressed_media b1 = pressed_media b3"
    by (simp_all add: resolved_def)
  from place_loop[of b1 "[0..<MAX_NUM_KEYS]"] c(3)
  have sfp: "same_frame b1 (fold place_slot [0..<MAX_NUM_KEYS] b1)"
    by (simp add: resolved_def wf_board_def)
  from c(2) have fn: "fn_pressed b3 = (\<exists>k\<in>set (pressed keymap pins). is_fn k)"
    and pm: "pressed_media b3 = (if ?ms = [] then Key0 u else last ?ms)"
    by (simp_all add: scanned_def media_key_pressed[OF assms(2)])
  have nd: "\<not> is_dummy (last ?ms)" if "?ms \<noteq> []"
  proof -
    from that have "last ?ms \<in> set ?ms" by (rule last_in_set)
    then show ?thesis by (simp add: is_media_not_dummy)
  qed
  have "current_media b' = current_media (set_media (fold place_slot [0..<MAX_NUM_KEYS] b1))"
    by (simp add: e)
  also have "\<dots> = (if is_dummy (pressed_media b3) then 0
      else if has_second (pressed_media b3) \<and> fn_pressed b3 then second (pressed_media b3)
      else code (pressed_media b3))"
    using sfp f1 m1 by (simp add: current_media_set_media same_frame_def)
  also have "\<dots> = (if ?ms = [] then 0
        else if has_second (last ?ms) \<and> (\<exists>k\<in>set (pressed keymap pins). is_fn k)
             then second (last ?ms) else code (last ?ms))"
    using nd by (auto simp: pm fn)
  finally show ?thesis using c(1) by blast
qed

subsection \<open>The tables of keyboard.h\<close>

lemma tables_shape:
  assumes "\<forall>name. 0 \<le> K name"
  shows "list_all (\<lambda>row. length row = NUM_COLS \<and> list_all (\<lambda>k. - 8 \<le> code k) row) (KEYS K u)"
    and "list_all (\<lambda>row. length row = NUM_COLS \<and> list_all (\<lambda>k. - 8 \<le> code k) row) (KEYS_SPECIAL K u)"
    and "length (KEYS K u) = NUM_ROWS" and "length (KEYS_SPECIAL K u) = NUM_ROWS"
proof -
  have k: "- 8 \<le> K name" for name
    using assms[rule_format, of name] by linarith
  show "list_all (\<lambda>row. length row = NUM_COLS \<and> list_all (\<lambda>k. - 8 \<le> code k) row) (KEYS K u)"
    by (simp add: KEYS_def NUM_COLS_def Key0_def Key1_def Key2_def Key3_def k KEY_DUMMY_def
        KEY_LSHIFT_def KEY_CTRL_def KEY_ALT_def KEY_ALTGR_def KEY_SUPER_def KEY_RSHIFT_def
        KEY_FN_def KEY_FN2_def)
  show "list_all (\<lambda>row. length row = NUM_COLS \<and> list_all (\<lambda>k. - 8 \<le> code k) row) (KEYS_SPECIAL K u)"
    by (simp add: KEYS_SPECIAL_def NUM_COLS_def Key0_def Key1_def Key2_def Key3_def k KEY_DUMMY_def
        KEY_LSHIFT_def KEY_CTRL_def KEY_ALT_def KEY_ALTGR_def KEY_SUPER_def KEY_RSHIFT_def
        KEY_FN_def KEY_FN2_def)
  show "length (KEYS K u) = NUM_ROWS" "length (KEYS_SPECIAL K u) = NUM_ROWS"
    by (simp_all add: KEYS_def KEYS_SPECIAL_def NUM_ROWS_def)
qed

lemma modifiers_known_at:
  assumes "list_all (\<lambda>row. length row = NUM_COLS \<and> list_all (\<lambda>k. - 8 \<le> code k) row) T"
    and "length T = NUM_ROWS"
  shows "modifiers_known (at T)"
  using assms by (auto simp: modifiers_known_def at_def list_all_length)

lemma modifiers_known_tables:
  assumes "\<forall>name. 0 \<le> K name"
  shows "modifiers_known (at (KEYS K u))" and "modifiers_known (at (KEYS_SPECIAL K u))"
  using tables_shape[OF assms, of u] by (simp_all add: modifiers_known_at)

lemma tables_sendable:
  assumes "\<forall>name. 0 \<le> K name \<and> K name mod 256 \<noteq> 0"
  shows "list_all (list_all (\<lambda>k. \<not> is_dummy k \<and> ordinary k \<longrightarrow> sendable k)) (KEYS K v)"
    and "list_all (list_all (\<lambda>k. \<not> is_dummy k \<and> ordinary k \<longrightarrow> sendable k)) (KEYS_SPECIAL K v)"
proof -
  define ok where "ok = (\<lambda>k. \<not> is_dummy k \<and> ordinary k \<longrightarrow> sendable k)"
  have m: "K name mod 256 \<noteq> 0" for name using assms by simp
  have 1: "ok (Key1 (K a))" "ok (Key2 (K a) (K c))" "ok (Key3 (K a) KEY_DUMMY (K c))" for a c
    by (simp_all add: ok_def sendable_def Key1_def Key2_def Key3_def uint8_def has_second_def
        has_third_def m)
  have 2: "ok (Key1 KEY_LSHIFT)" "ok (Key1 KEY_CTRL)" "ok (Key1 KEY_ALT)" "ok (Key1 KEY_ALTGR)"
    "ok (Key1 KEY_SUPER)" "ok (Key1 KEY_RSHIFT)" "ok (Key1 KEY_FN)" "ok (Key1 KEY_FN2)"
    by (simp_all add: ok_def ordinary_def Key1_def is_modifier_def is_fn_def is_fn2_def
        KEY_LSHIFT_def KEY_CTRL_def KEY_ALT_def KEY_ALTGR_def KEY_SUPER_def KEY_RSHIFT_def)
  have 3: "ok (Key0 v)" by (simp add: ok_def Key0_def is_dummy_def)
  show "list_all (list_all (\<lambda>k. \<not> is_dummy k \<and> ordinary k \<longrightarrow> sendable k)) (KEYS K v)"
    unfolding ok_def[symmetric] by (simp add: KEYS_def 1 2 3)
  show "list_all (list_all (\<lambda>k. \<not> is_dummy k \<and> ordinary k \<longrightarrow> sendable k)) (KEYS_SPECIAL K v)"
    unfolding ok_def[symmetric] by (simp add: KEYS_SPECIAL_def 1 2 3)
qed

lemma codes_sendable_at:
  assumes "list_all (list_all (\<lambda>k. \<not> is_dummy k \<and> ordinary k \<longrightarrow> sendable k)) T"
    and "list_all (\<lambda>row. length row = NUM_COLS \<and> list_all (\<lambda>k. - 8 \<le> code k) row) T"
    and "length T = NUM_ROWS"
  shows "codes_sendable (at T)"
  using assms by (auto simp: codes_sendable_def at_def list_all_length)

lemma codes_sendable_tables:
  assumes "\<forall>name. 0 \<le> K name \<and> K name mod 256 \<noteq> 0"
  shows "codes_sendable (at (KEYS K v))" and "codes_sendable (at (KEYS_SPECIAL K v))"
proof -
  from assms have nn: "\<forall>name. 0 \<le> K name" by simp
  show "codes_sendable (at (KEYS K v))"
    using tables_sendable(1)[OF assms, of v] tables_shape(1,3)[OF nn, of v]
    by (rule codes_sendable_at)
  show "codes_sendable (at (KEYS_SPECIAL K v))"
    using tables_sendable(2)[OF assms, of v] tables_shape(2,4)[OF nn, of v]
    by (rule codes_sendable_at)
qed

subsection \<open>The sample inputs\<close>

lemma wf_board_init: "wf_board b \<Longrightarrow> wf_board (init u b)"
  by (simp add: wf_board_def init_def)

lemma wf_board_power_on: "wf_board power_on"
  by (simp add: wf_board_def power_on_def MAX_NUM_KEYS_def NUM_ROWS_def NUM_COLS_def)

lemma modifiers_known_demo: "modifiers_known demo_keymap"
  by (auto simp: modifiers_known_def demo_keymap_def Key0_def Key1_def Key2_def Key3_def
      KEY_DUMMY_def KEY_CTRL_def KEY_FN_def KEY_FN2_def)

subsection \<open>Release detection\<close>

lemma no_duplicates_keys:
  "keys_to_send b' = keys_to_send b \<Longrightarrow> no_duplicates b' = no_duplicates b"
  by (simp add: no_duplicates_def)

lemma filter_eq_single:
  "distinct xs \<Longrightarrow> i \<in> set xs \<Longrightarrow> filter (\<lambda>j. j = i) xs = [i]"
  by (induction xs) (auto simp: filter_empty_conv)

text \<open>A released key is recorded once.\<close>

lemma released_once:
  assumes nd: "no_duplicates b" and i: "i < MAX_NUM_KEYS" and r: "released b i"
  shows "filter (key_eq (keys_to_send b ! i))
           (map (\<lambda>j. keys_to_send b ! j) (filter (released b) [0..<MAX_NUM_KEYS])) =
         [keys_to_send b ! i]"
proof -
  let ?k = "keys_to_send b ! i"
  let ?rs = "filter (released b) [0..<MAX_NUM_KEYS]"
  have k: "\<not> is_dummy ?k" using r by (simp add: released_def)
  have "key_eq ?k (keys_to_send b ! j) \<longleftrightarrow> j = i" if "j \<in> set ?rs" for j
  proof
    assume e: "key_eq ?k (keys_to_send b ! j)"
    from that have "j < MAX_NUM_KEYS" by simp
    with nd i k e show "j = i" unfolding no_duplicates_def by blast
  next
    assume "j = i"
    then show "key_eq ?k (keys_to_send b ! j)" by (simp add: key_eq_refl)
  qed
  then have "filter (\<lambda>j. key_eq ?k (keys_to_send b ! j)) ?rs = filter (\<lambda>j. j = i) ?rs"
    by (intro filter_cong) auto
  also have "\<dots> = [i]"
    using i r by (intro filter_eq_single) auto
  finally show ?thesis by (simp add: filter_map comp_def)
qed

lemma pressed_all_resident:
  assumes s: "scanned keymap pins u b b3" and r: "resolved u b3 b1 b'"
    and nd: "no_duplicates b" and k: "k \<in> set (ordinary_pressed keymap pins)"
  shows "resident b' k"
proof -
  from s have cu: "curr_pressed_keys b3 =
       ordinary_pressed keymap pins @
       replicate (MAX_NUM_KEYS - length (ordinary_pressed keymap pins)) (Key0 u)"
    and ks: "keys_to_send b3 = keys_to_send b"
    by (simp_all add: scanned_def)
  from k obtain j where j: "j < length (ordinary_pressed keymap pins)"
    "ordinary_pressed keymap pins ! j = k"
    by (auto simp: in_set_conv_nth)
  have j6: "j < MAX_NUM_KEYS" using j(1) length_ordinary_pressed[of keymap pins] by simp
  from curr_nth[OF cu j6] j have c: "\<not> is_dummy (curr_pressed_keys b3 ! j)"
    "curr_pressed_keys b3 ! j = k" by simp_all
  have "no_duplicates b3" using nd by (simp add: no_duplicates_keys[OF ks])
  with r j6 c show ?thesis unfolding resolved_def by metis
qed

subsection \<open>The invariant of the output buffer\<close>

lemma init_slots:
  assumes "wf_board b0" "i < MAX_NUM_KEYS"
  shows "keys_to_send (init u b0) ! i = Key0 u" "codes_to_send (init u b0) ! i = 0"
  using assms by (simp_all add: init_def wf_board_def fill_full)

lemma init_invariant:
  assumes "wf_board b0"
  shows "slot_invariant (init u b0)" and "neutral_slots_empty (init u b0)"
  using init_slots[OF assms, of _ u] wf_board_init[OF assms, of u]
  by (simp_all add: slot_invariant_def no_duplicates_def empty_slots_neutral_def
      neutral_slots_empty_def KEY_DUMMY_def)

lemma empty_slots_neutral_keys:
  "keys_to_send b' = keys_to_send b \<Longrightarrow> codes_to_send b' = codes_to_send b \<Longrightarrow>
   empty_slots_neutral b' = empty_slots_neutral b"
  by (simp add: empty_slots_neutral_def)

lemma neutral_slots_empty_keys:
  "keys_to_send b' = keys_to_send b \<Longrightarrow> codes_to_send b' = codes_to_send b \<Longrightarrow>
   neutral_slots_empty b' = neutral_slots_empty b"
  by (simp add: neutral_slots_empty_def)

lemma sendable_place_code: "sendable k \<Longrightarrow> place_code k b \<noteq> KEY_DUMMY"
  by (simp add: sendable_def place_code_def KEY_DUMMY_def)

lemma ordinary_pressed_sendable:
  assumes "codes_sendable keymap" "k \<in> set (ordinary_pressed keymap pins)"
  shows "sendable k"
proof -
  from ordinary_pressed_subset[OF assms(2)] have "k \<in> set (pressed keymap pins)" "ordinary k"
    by simp_all
  then obtain row col where "row < NUM_ROWS" "col < NUM_COLS" "k = keymap row col" "\<not> is_dummy k"
    by (auto simp: pressed_iff)
  with assms(1) \<open>ordinary k\<close> show ?thesis by (simp add: codes_sendable_def)
qed

lemma cycle_invariant:
  assumes inv: "slot_invariant b" and mk: "modifiers_known keymap"
  shows "\<exists>b'. update K keymap u pins b = Inr b' \<and> slot_invariant b' \<and>
           (neutral_slots_empty b \<and> codes_sendable keymap \<longrightarrow> neutral_slots_empty b')"
proof -
  from inv have wf: "wf_board b" and nd: "no_duplicates b" and en: "empty_slots_neutral b"
    by (simp_all add: slot_invariant_def)
  from cycle[OF wf mk, of K pins u] obtain b3 b1 b' where
    c: "update K keymap u pins b = Inr b'" "scanned keymap pins u b b3" "resolved u b3 b1 b'"
    by blast
  from c(2) have ks: "keys_to_send b3 = keys_to_send b" "codes_to_send b3 = codes_to_send b"
    and cu: "curr_pressed_keys b3 =
       ordinary_pressed keymap pins @
       replicate (MAX_NUM_KEYS - length (ordinary_pressed keymap pins)) (Key0 u)"
    by (simp_all add: scanned_def)
  have nd3: "no_duplicates b3" using nd by (simp add: no_duplicates_keys[OF ks(1)])
  have en3: "empty_slots_neutral b3" using en by (simp add: empty_slots_neutral_keys[OF ks])
  from c(3) have r: "wf_board b'" "slotwise b1 b'"
    "\<forall>i<MAX_NUM_KEYS. keys_to_send b1 ! i = (if released b3 i then Key0 u else keys_to_send b3 ! i)"
    "\<forall>i<MAX_NUM_KEYS. codes_to_send b1 ! i = (if released b3 i then KEY_DUMMY else codes_to_send b3 ! i)"
    "curr_pressed_keys b1 = curr_pressed_keys b3"
    by (simp_all add: resolved_def)
  from c(3) nd3 have nd': "no_duplicates b'" by (simp add: resolved_def)
  have en': "empty_slots_neutral b'"
    using r(2) released_empty_neutral[OF r(3,4) en3] by (rule slotwise_empty_neutral)
  have ne': "neutral_slots_empty b'" if ne: "neutral_slots_empty b" and cs: "codes_sendable keymap"
  proof -
    have ne3: "neutral_slots_empty b3" using ne by (simp add: neutral_slots_empty_keys[OF ks])
    have ne1: "neutral_slots_empty b1" using r(3,4) ne3 by (rule released_neutral_empty)
    have pc: "\<forall>j<MAX_NUM_KEYS. \<not> is_dummy (curr_pressed_keys b1 ! j) \<longrightarrow>
           place_code (curr_pressed_keys b1 ! j) b1 \<noteq> KEY_DUMMY"
    proof (intro allI impI)
      fix j assume j: "j < MAX_NUM_KEYS" "\<not> is_dummy (curr_pressed_keys b1 ! j)"
      with curr_nth[OF cu j(1)] have "j < length (ordinary_pressed keymap pins)"
        "curr_pressed_keys b1 ! j = ordinary_pressed keymap pins ! j"
        by (simp_all add: r(5))
      then have "curr_pressed_keys b1 ! j \<in> set (ordinary_pressed keymap pins)" by simp
      from sendable_place_code[OF ordinary_pressed_sendable[OF cs this]]
      show "place_code (curr_pressed_keys b1 ! j) b1 \<noteq> KEY_DUMMY" .
    qed
    from r(2) ne1 pc show ?thesis by (rule slotwise_neutral_empty)
  qed
  from c(1) r(1) nd' en' ne' show ?thesis by (auto simp: slot_invariant_def)
qed

lemma cycles_invariant:
  assumes "slot_invariant b" "modifiers_known keymap"
  shows "\<exists>b'. cycles K keymap u ps b = Inr b' \<and> slot_invariant b' \<and>
           (neutral_slots_empty b \<and> codes_sendable keymap \<longrightarrow> neutral_slots_empty b')"
  using assms(1)
proof (induction ps arbitrary: b)
  case Nil
  then show ?case by (simp add: cycles_def)
next
  case (Cons p ps)
  from cycle_invariant[OF Cons.prems assms(2), of K u p] obtain b1 where
    b1: "update K keymap u p b = Inr b1" "slot_invariant b1"
      "neutral_slots_empty b \<and> codes_sendable keymap \<longrightarrow> neutral_slots_empty b1"
    by blast
  from Cons.IH[OF b1(2)] obtain b' where
    b': "cycles K keymap u ps b1 = Inr b'" "slot_invariant b'"
      "neutral_slots_empty b1 \<and> codes_sendable keymap \<longrightarrow> neutral_slots_empty b'"
    by blast
  have "cycles K keymap u (p # ps) b = Inr b'"
    using b1(1) b'(1) by (simp add: cycles_def)
  with b'(2,3) b1(3) show ?case by blast
qed

lemma slot_invariant_iff:
  "wf_board b \<and> empty_iff_neutral b \<and> no_duplicates b \<longleftrightarrow>
   slot_invariant b \<and> neutral_slots_empty b"
  by (auto simp: slot_invariant_def empty_iff_neutral_def empty_slots_neutral_def
      neutral_slots_empty_def)

text \<open>
  A key whose code has a zero low byte would sit in a slot with the neutral code: on the
  table \<open>KEYS\<close>, if the macros had the value 256.
\<close>

lemma zero_low_byte_code:
  "map_sum id keys_to_send
     (update (\<lambda>name. 256) (at (KEYS (\<lambda>name. 256) stale)) stale (held [(0, 0)]) (init stale power_on))
     = Inr [Key1 256, Key0 stale, Key0 stale, Key0 stale, Key0 stale, Key0 stale] \<and>
   map_sum id codes_to_send
     (update (\<lambda>name. 256) (at (KEYS (\<lambda>name. 256) stale)) stale (held [(0, 0)]) (init stale power_on))
     = Inr [0, 0, 0, 0, 0, 0] \<and>
   \<not> is_dummy (Key1 256)"
  by code_simp

subsection \<open>A key that stays pressed\<close>

lemma cycle_held:
  assumes "wf_board b" "no_duplicates b" "modifiers_known keymap"
    and "i < MAX_NUM_KEYS" "\<not> is_dummy (keys_to_send b ! i)"
    and "\<exists>k'\<in>set (ordinary_pressed keymap pins). key_eq (keys_to_send b ! i) k'"
  shows "\<exists>b'. update K keymap u pins b = Inr b' \<and> wf_board b' \<and> no_duplicates b' \<and>
           keys_to_send b' ! i = keys_to_send b ! i \<and> codes_to_send b' ! i = codes_to_send b ! i"
proof -
  from cycle[OF assms(1,3), of K pins u] obtain b3 b1 b' where
    c: "update K keymap u pins b = Inr b'" "scanned keymap pins u b b3" "resolved u b3 b1 b'"
    by blast
  from c(2) have ks: "keys_to_send b3 = keys_to_send b" by (simp add: scanned_def)
  have "no_duplicates b3" using assms(2) by (simp add: no_duplicates_keys[OF ks])
  with c(3) have "wf_board b'" "no_duplicates b'" by (simp_all add: resolved_def)
  with held_slot[OF c(2,3) assms(4,5,6)] c(1) show ?thesis by blast
qed

lemma cycles_held:
  assumes mk: "modifiers_known keymap" and i: "i < MAX_NUM_KEYS" and k: "\<not> is_dummy k"
  shows "wf_board b \<Longrightarrow> no_duplicates b \<Longrightarrow> keys_to_send b ! i = k \<Longrightarrow>
    \<forall>pins\<in>set ps. \<exists>k'\<in>set (ordinary_pressed keymap pins). key_eq k k' \<Longrightarrow>
    \<exists>b'. cycles K keymap u ps b = Inr b' \<and> wf_board b' \<and> no_duplicates b' \<and>
         keys_to_send b' ! i = k \<and> codes_to_send b' ! i = codes_to_send b ! i"
proof (induction ps arbitrary: b)
  case Nil
  then show ?case by (simp add: cycles_def)
next
  case (Cons p ps)
  from Cons.prems(3,4) k have "\<not> is_dummy (keys_to_send b ! i)"
    "\<exists>k'\<in>set (ordinary_pressed keymap p). key_eq (keys_to_send b ! i) k'"
    by simp_all
  from cycle_held[OF Cons.prems(1,2) mk i this, of K u] obtain b1 where
    b1: "update K keymap u p b = Inr b1" "wf_board b1" "no_duplicates b1"
      "keys_to_send b1 ! i = keys_to_send b ! i" "codes_to_send b1 ! i = codes_to_send b ! i"
    by blast
  from Cons.prems(3,4) b1(4) have "keys_to_send b1 ! i = k"
    "\<forall>pins\<in>set ps. \<exists>k'\<in>set (ordinary_pressed keymap pins). key_eq k k'"
    by simp_all
  from Cons.IH[OF b1(2,3) this] obtain b' where
    b': "cycles K keymap u ps b1 = Inr b'" "wf_board b'" "no_duplicates b'"
      "keys_to_send b' ! i = k" "codes_to_send b' ! i = codes_to_send b1 ! i"
    by blast
  have "cycles K keymap u (p # ps) b = Inr b'"
    using b1(1) b'(1) by (simp add: cycles_def)
  with b' b1(5) show ?case by simp
qed

lemma six_keys_down:
  "wf_board six_keys_down" "no_duplicates six_keys_down"
  "keys_to_send six_keys_down = [Key1 10, Key1 11, Key1 12, Key1 13, Key1 14, Key1 15]"
proof -
  have "slot_invariant (init stale power_on)"
    by (rule init_invariant[OF wf_board_power_on])
  from cycles_invariant[OF this modifiers_known_demo, of teensy stale "[six_keys]"]
  obtain b where "cycles teensy demo_keymap stale [six_keys] (init stale power_on) = Inr b"
    "slot_invariant b" by blast
  then show "wf_board six_keys_down" "no_duplicates six_keys_down"
    by (simp_all add: six_keys_down_def slot_invariant_def)
  show "keys_to_send six_keys_down = [Key1 10, Key1 11, Key1 12, Key1 13, Key1 14, Key1 15]"
    by code_simp
qed

lemma cycles_Cons:
  "update K keymap u p b = Inr b1 \<Longrightarrow> cycles K keymap u (p # ps) b = cycles K keymap u ps b1"
  by (simp add: cycles_def)

lemma cycle_placed:
  assumes "wf_board b" "no_duplicates b" "modifiers_known keymap"
    and "\<exists>k'\<in>set (ordinary_pressed keymap pins). key_eq k k'"
  shows "\<exists>b'. update K keymap u pins b = Inr b' \<and> wf_board b' \<and> no_duplicates b' \<and> resident b' k"
proof -
  from cycle[OF assms(1,3), of K pins u] obtain b3 b1 b' where
    c: "update K keymap u pins b = Inr b'" "scanned keymap pins u b b3" "resolved u b3 b1 b'"
    by blast
  from c(2) have ks: "keys_to_send b3 = keys_to_send b" by (simp add: scanned_def)
  have "no_duplicates b3" using assms(2) by (simp add: no_duplicates_keys[OF ks])
  with c(3) have w: "wf_board b'" "no_duplicates b'" by (simp_all add: resolved_def)
  from assms(4) obtain k' where k': "k' \<in> set (ordinary_pressed keymap pins)" "key_eq k k'"
    by blast
  from pressed_all_resident[OF c(2,3) assms(2) k'(1)] k'(2) have "resident b' k"
    unfolding resident_def by (metis key_eq_sym key_eq_trans)
  with c(1) w show ?thesis by blast
qed

lemma no_duplicates_unique:
  assumes "no_duplicates b" "i < MAX_NUM_KEYS" "j < MAX_NUM_KEYS" "\<not> is_dummy k"
    and "key_eq (keys_to_send b ! i) k" "key_eq (keys_to_send b ! j) k"
  shows "j = i"
proof (rule ccontr)
  assume "j \<noteq> i"
  moreover from assms(4,5) have "\<not> is_dummy (keys_to_send b ! i)" by (simp add: key_eq_dummy)
  ultimately have "\<not> key_eq (keys_to_send b ! i) (keys_to_send b ! j)"
    using assms(1,2,3) unfolding no_duplicates_def by metis
  with assms(5,6) show False by (metis key_eq_sym key_eq_trans)
qed

text \<open>From a board on which \<open>k\<close> is in slot \<open>i\<close>, every number of cycles leaves it there.\<close>

lemma stays:
  assumes "wf_board b" "no_duplicates b" "modifiers_known keymap"
    and i: "i < MAX_NUM_KEYS" "key_eq (keys_to_send b ! i) k" and k: "\<not> is_dummy k"
    and h: "\<forall>pins\<in>set ps. \<exists>k'\<in>set (ordinary_pressed keymap pins). key_eq k k'"
  shows "\<exists>b'. cycles K keymap u ps b = Inr b' \<and> key_eq (keys_to_send b' ! i) k \<and>
           (\<forall>j<MAX_NUM_KEYS. key_eq (keys_to_send b' ! j) k \<longrightarrow> j = i)"
proof -
  let ?k0 = "keys_to_send b ! i"
  from i(2) k have k0: "\<not> is_dummy ?k0" by (simp add: key_eq_dummy)
  have h0: "\<forall>pins\<in>set ps. \<exists>k'\<in>set (ordinary_pressed keymap pins). key_eq ?k0 k'"
    using h i(2) by (meson key_eq_trans)
  from cycles_held[OF assms(3) i(1) k0 assms(1,2) refl h0, of K u] obtain b' where
    b': "cycles K keymap u ps b = Inr b'" "no_duplicates b'" "keys_to_send b' ! i = ?k0"
    by blast
  from b'(3) i(2) have e: "key_eq (keys_to_send b' ! i) k" by simp
  from no_duplicates_unique[OF b'(2) i(1) _ k e] b'(1) e show ?thesis by blast
qed

subsection \<open>More keys than slots\<close>

lemma key_eq_pair: "key_eq a b \<longleftrightarrow> (code a, second a) = (code b, second b)"
  by (simp add: key_eq_def)

lemma distinct_keysD:
  assumes "distinct (map (\<lambda>k. (code k, second k)) os)"
    and "m < length os" "n < length os" "key_eq (os ! m) (os ! n)"
  shows "m = n"
  using assms by (simp add: distinct_conv_nth key_eq_pair) metis

section \<open>Claims\<close>

subsection \<open>C1: the code of a placed key\<close>

text \<open>
  Claim C1 as stated fails. With a key that has both alternate codes and with FN and
  FN2 both held, the code sent is the secondary one, where the rule of the
  specification gives the tertiary one. And the code sent is the low byte of the code
  of the key: on the table of keyboard.h, with 0xF004 for the macro \<^verbatim>\<open>KEY_A\<close>, the key A
  alone is sent as 4.
\<close>

theorem layer_precedence_counterexample:
  "map_sum id codes_to_send
     (update teensy demo_keymap stale (held [(0, 1), (4, 1), (4, 2)]) (init stale power_on))
     = Inr [7, 0, 0, 0, 0, 0] \<and>
   map_sum id keys_to_send
     (update teensy demo_keymap stale (held [(0, 1), (4, 1), (4, 2)]) (init stale power_on))
     = Inr [Key3 6 7 8, Key0 stale, Key0 stale, Key0 stale, Key0 stale, Key0 stale] \<and>
   map_sum id fn_pressed
     (update teensy demo_keymap stale (held [(0, 1), (4, 1), (4, 2)]) (init stale power_on))
     = Inr True \<and>
   map_sum id fn2_pressed
     (update teensy demo_keymap stale (held [(0, 1), (4, 1), (4, 2)]) (init stale power_on))
     = Inr True \<and>
   has_second (Key3 6 7 8) \<and> has_third (Key3 6 7 8) \<and>
   spec_code (Key3 6 7 8) True True = 8 \<and>
   map_sum id codes_to_send
     (update teensy (at (KEYS teensy stale)) stale (held [(2, 12)]) (init stale power_on))
     = Inr [4, 0, 0, 0, 0, 0] \<and>
   map_sum id keys_to_send
     (update teensy (at (KEYS teensy stale)) stale (held [(2, 12)]) (init stale power_on))
     = Inr [Key3 0xF004 KEY_DUMMY 0xF004, Key0 stale, Key0 stale, Key0 stale, Key0 stale, Key0 stale] \<and>
   spec_code (Key3 0xF004 KEY_DUMMY 0xF004) False False = 0xF004"
  by code_simp

text \<open>
  Claim C1, amended. The ordinary keys pressed in a cycle are the ones that the scan
  keeps in \<^verbatim>\<open>curr_pressed_keys\<close>: the first \<open>MAX_NUM_KEYS\<close> of them in the order of the scan.
  At the end of every cycle, each occupied slot is of one of two kinds. Its key was in
  the slot before the cycle and is still among these keys: then the slot has the code
  it had (see C2). Or the slot was filled in this cycle with one of these keys: then
  its code is the low 8 bits of the secondary code of that key if the key has one and
  FN is held in this cycle, else of the tertiary code if the key has one and FN2 is
  held, else of the primary code. So with both alternate codes and both layer keys
  held, the secondary code is sent: layer 1 wins over layer 2.
\<close>

theorem placed_code:
  assumes "wf_board b" "modifiers_known keymap"
  shows "\<exists>b'. update K keymap u pins b = Inr b' \<and>
     fn_pressed b' = (\<exists>k\<in>set (pressed keymap pins). is_fn k) \<and>
     fn2_pressed b' = (\<exists>k\<in>set (pressed keymap pins). is_fn2 k) \<and>
     (\<forall>l<MAX_NUM_KEYS. \<not> is_dummy (keys_to_send b' ! l) \<longrightarrow>
        (if \<not> is_dummy (keys_to_send b ! l) \<and>
            (\<exists>k'\<in>set (ordinary_pressed keymap pins). key_eq (keys_to_send b ! l) k')
         then keys_to_send b' ! l = keys_to_send b ! l \<and> codes_to_send b' ! l = codes_to_send b ! l
         else keys_to_send b' ! l \<in> set (ordinary_pressed keymap pins) \<and>
              codes_to_send b' ! l =
                uint8 (if has_second (keys_to_send b' ! l) \<and> fn_pressed b'
                         then second (keys_to_send b' ! l)
                       else if has_third (keys_to_send b' ! l) \<and> fn2_pressed b'
                         then third (keys_to_send b' ! l)
                       else code (keys_to_send b' ! l))))"
proof -
  from cycle[OF assms, of K pins u] obtain b3 b1 b' where
    c: "update K keymap u pins b = Inr b'" "scanned keymap pins u b b3" "resolved u b3 b1 b'"
    by blast
  from c(3) have sf: "same_frame b1 b'" and f1: "fn_pressed b1 = fn_pressed b3"
    "fn2_pressed b1 = fn2_pressed b3"
    by (simp_all add: resolved_def)
  with c(2) have fl: "fn_pressed b' = (\<exists>k\<in>set (pressed keymap pins). is_fn k)"
    "fn2_pressed b' = (\<exists>k\<in>set (pressed keymap pins). is_fn2 k)"
    by (simp_all add: same_frame_def scanned_def)
  have "if \<not> is_dummy (keys_to_send b ! l) \<and>
            (\<exists>k'\<in>set (ordinary_pressed keymap pins). key_eq (keys_to_send b ! l) k')
         then keys_to_send b' ! l = keys_to_send b ! l \<and> codes_to_send b' ! l = codes_to_send b ! l
         else keys_to_send b' ! l \<in> set (ordinary_pressed keymap pins) \<and>
              codes_to_send b' ! l = place_code (keys_to_send b' ! l) b'"
    if "l < MAX_NUM_KEYS" "\<not> is_dummy (keys_to_send b' ! l)" for l
    using filled_slot[OF c(2,3) that(1,2)] by (cases "is_dummy (keys_to_send b ! l)") auto
  then show ?thesis
    using c(1) fl unfolding place_code_def by blast
qed

theorem placed_code_witness:
  "\<exists>b'. update teensy demo_keymap stale (held [(0, 1), (4, 1), (4, 2)]) (init stale power_on) = Inr b' \<and>
     fn_pressed b' \<and> fn2_pressed b' \<and>
     keys_to_send b' ! 0 = Key3 6 7 8 \<and>
     codes_to_send b' ! 0 = uint8 (second (Key3 6 7 8))"
proof -
  let ?pins = "held [(0, 1), (4, 1), (4, 2)]"
  let ?b = "init stale power_on"
  have wf: "wf_board ?b" by (rule wf_board_init[OF wf_board_power_on])
  from placed_code[OF wf modifiers_known_demo, of teensy stale ?pins]
  obtain b' where b': "update teensy demo_keymap stale ?pins ?b = Inr b'"
     "fn_pressed b' = (\<exists>k\<in>set (pressed demo_keymap ?pins). is_fn k)"
     "fn2_pressed b' = (\<exists>k\<in>set (pressed demo_keymap ?pins). is_fn2 k)"
     "\<forall>l<MAX_NUM_KEYS. \<not> is_dummy (keys_to_send b' ! l) \<longrightarrow>
        (if \<not> is_dummy (keys_to_send ?b ! l) \<and>
            (\<exists>k'\<in>set (ordinary_pressed demo_keymap ?pins). key_eq (keys_to_send ?b ! l) k')
         then keys_to_send b' ! l = keys_to_send ?b ! l \<and> codes_to_send b' ! l = codes_to_send ?b ! l
         else keys_to_send b' ! l \<in> set (ordinary_pressed demo_keymap ?pins) \<and>
              codes_to_send b' ! l =
                uint8 (if has_second (keys_to_send b' ! l) \<and> fn_pressed b'
                         then second (keys_to_send b' ! l)
                       else if has_third (keys_to_send b' ! l) \<and> fn2_pressed b'
                         then third (keys_to_send b' ! l)
                       else code (keys_to_send b' ! l)))"
    by blast
  have "map_sum id keys_to_send (update teensy demo_keymap stale ?pins ?b)
     = Inr [Key3 6 7 8, Key0 stale, Key0 stale, Key0 stale, Key0 stale, Key0 stale]"
    by code_simp
  from this[unfolded b'(1)] have k0: "keys_to_send b' ! 0 = Key3 6 7 8" by simp
  have fn: "\<exists>k\<in>set (pressed demo_keymap ?pins). is_fn k" by code_simp
  have fn2: "\<exists>k\<in>set (pressed demo_keymap ?pins). is_fn2 k" by code_simp
  have e: "is_dummy (keys_to_send ?b ! 0)" by code_simp
  have nd: "\<not> is_dummy (Key3 6 7 8)" "has_second (Key3 6 7 8)" by code_simp+
  have "(0::nat) < MAX_NUM_KEYS" by (simp add: MAX_NUM_KEYS_def)
  with b'(4) k0 e nd fn b'(2) have "codes_to_send b' ! 0 = uint8 (second (Key3 6 7 8))"
    by simp
  with b'(1,2,3) fn fn2 k0 show ?thesis by simp
qed

subsection \<open>C2: the code of a key that stays in its slot\<close>

text \<open>
  Claim C2 as stated fails. A key with a secondary code is pressed alone, then FN is
  pressed as well: the code of its slot is the primary code in both cycles.
\<close>

theorem held_code_counterexample:
  "map_sum id codes_to_send
     (cycles teensy demo_keymap stale [held [(0, 0)]] (init stale power_on))
     = Inr [4, 0, 0, 0, 0, 0] \<and>
   map_sum id codes_to_send
     (cycles teensy demo_keymap stale [held [(0, 0)], held [(0, 0), (4, 1)]] (init stale power_on))
     = Inr [4, 0, 0, 0, 0, 0] \<and>
   map_sum id keys_to_send
     (cycles teensy demo_keymap stale [held [(0, 0)], held [(0, 0), (4, 1)]] (init stale power_on))
     = Inr [Key2 4 5, Key0 stale, Key0 stale, Key0 stale, Key0 stale, Key0 stale] \<and>
   map_sum id fn_pressed
     (cycles teensy demo_keymap stale [held [(0, 0)], held [(0, 0), (4, 1)]] (init stale power_on))
     = Inr True \<and>
   spec_code (Key2 4 5) True False = 5"
  by code_simp

text \<open>
  Claim C2, amended. The code of a slot is computed when a key is placed into the slot
  (see C1) and not again: in a cycle in which the key of a slot is still among the
  ordinary keys that the scan keeps in \<^verbatim>\<open>curr_pressed_keys\<close> (the first \<open>MAX_NUM_KEYS\<close> of
  them in the order of the scan), the slot keeps its key and its code, whatever the
  layer keys held in that cycle.
\<close>

theorem held_code_unchanged:
  assumes "wf_board b" "modifiers_known keymap"
    and "i < MAX_NUM_KEYS" "\<not> is_dummy (keys_to_send b ! i)"
    and "\<exists>k'\<in>set (ordinary_pressed keymap pins). key_eq (keys_to_send b ! i) k'"
  shows "\<exists>b'. update K keymap u pins b = Inr b' \<and>
     keys_to_send b' ! i = keys_to_send b ! i \<and>
     codes_to_send b' ! i = codes_to_send b ! i"
proof -
  from cycle[OF assms(1,2), of K pins u] obtain b3 b1 b' where
    c: "update K keymap u pins b = Inr b'" "scanned keymap pins u b b3" "resolved u b3 b1 b'"
    by blast
  from held_slot[OF c(2,3) assms(3,4,5)] c(1) show ?thesis by blast
qed

theorem held_code_unchanged_witness:
  "\<exists>b'. update teensy demo_keymap stale (held [(0, 0), (4, 1)]) one_key_down = Inr b' \<and>
     keys_to_send b' ! 0 = Key2 4 5 \<and> codes_to_send b' ! 0 = 4"
proof -
  have wf: "wf_board one_key_down" by code_simp
  have i: "(0::nat) < MAX_NUM_KEYS" by (simp add: MAX_NUM_KEYS_def)
  have k: "keys_to_send one_key_down ! 0 = Key2 4 5" "codes_to_send one_key_down ! 0 = 4"
    by code_simp+
  have nd: "\<not> is_dummy (keys_to_send one_key_down ! 0)" by code_simp
  have h: "\<exists>k'\<in>set (ordinary_pressed demo_keymap (held [(0, 0), (4, 1)])).
      key_eq (keys_to_send one_key_down ! 0) k'"
    by code_simp
  from held_code_unchanged[OF wf modifiers_known_demo i nd h, of teensy stale] k
  show ?thesis by simp
qed

subsection \<open>C3: a held key keeps its slot\<close>

text \<open>
  Claim C3. Take a sequence of at least one cycle in each of which \<open>k\<close> (a key equal
  to it under \<^verbatim>\<open>operator==\<close>) is among the ordinary keys that the scan keeps in
  \<^verbatim>\<open>curr_pressed_keys\<close>. Then there is one slot \<open>i\<close> such that after the first cycle,
  and after every further cycle of the sequence, slot \<open>i\<close> holds \<open>k\<close> and no other
  slot does; if \<open>k\<close> was in a slot before the first cycle, that slot is \<open>i\<close>. Placing
  \<open>k\<close> on a board that has it in a slot changes nothing.
\<close>

theorem slot_stability:
  assumes "wf_board b" "no_duplicates b" "modifiers_known keymap"
    and "ps \<noteq> []"
    and "\<forall>pins\<in>set ps. \<exists>k'\<in>set (ordinary_pressed keymap pins). key_eq k k'"
  shows "(\<exists>i<MAX_NUM_KEYS.
     (\<forall>j<MAX_NUM_KEYS. key_eq (keys_to_send b ! j) k \<longrightarrow> j = i) \<and>
     (\<forall>n. 0 < n \<and> n \<le> length ps \<longrightarrow>
        (\<exists>b'. cycles K keymap u (take n ps) b = Inr b' \<and>
           key_eq (keys_to_send b' ! i) k \<and>
           (\<forall>j<MAX_NUM_KEYS. key_eq (keys_to_send b' ! j) k \<longrightarrow> j = i)))) \<and>
     (\<forall>bd. resident bd k \<longrightarrow> try_place_key k bd = (False, bd))"
proof -
  from assms(4) obtain p qs where ps: "ps = p # qs" by (cases ps) auto
  from assms(5) ps obtain k' where k': "k' \<in> set (ordinary_pressed keymap p)" "key_eq k k'"
    by auto
  from ordinary_pressed_subset[OF k'(1)] have "\<not> is_dummy k'" by (auto dest: pressed_not_dummy)
  with k'(2) have k: "\<not> is_dummy k" by (simp add: key_eq_dummy)
  have hq: "\<forall>pins\<in>set (take m qs). \<exists>k'\<in>set (ordinary_pressed keymap pins). key_eq k k'" for m
    using assms(5) ps by (auto dest: in_set_takeD)
  from cycle_placed[OF assms(1,2,3), of p k K u] k' obtain b1 where
    b1: "update K keymap u p b = Inr b1" "wf_board b1" "no_duplicates b1" "resident b1 k"
    by blast
  have stable: "\<exists>i<MAX_NUM_KEYS.
     (\<forall>j<MAX_NUM_KEYS. key_eq (keys_to_send b ! j) k \<longrightarrow> j = i) \<and>
     (\<forall>n. 0 < n \<and> n \<le> length ps \<longrightarrow>
        (\<exists>b'. cycles K keymap u (take n ps) b = Inr b' \<and>
           key_eq (keys_to_send b' ! i) k \<and>
           (\<forall>j<MAX_NUM_KEYS. key_eq (keys_to_send b' ! j) k \<longrightarrow> j = i)))"
  proof (cases "resident b k")
    case True
    then obtain i where i: "i < MAX_NUM_KEYS" "key_eq (keys_to_send b ! i) k"
      by (auto simp: resident_def)
    have u0: "\<forall>j<MAX_NUM_KEYS. key_eq (keys_to_send b ! j) k \<longrightarrow> j = i"
      using no_duplicates_unique[OF assms(2) i(1) _ k i(2)] by blast
    have "\<exists>b'. cycles K keymap u (take n ps) b = Inr b' \<and> key_eq (keys_to_send b' ! i) k \<and>
           (\<forall>j<MAX_NUM_KEYS. key_eq (keys_to_send b' ! j) k \<longrightarrow> j = i)" for n
    proof -
      have "\<forall>pins\<in>set (take n ps). \<exists>k'\<in>set (ordinary_pressed keymap pins). key_eq k k'"
        using assms(5) by (auto dest: in_set_takeD)
      from stays[OF assms(1,2,3) i k this, of K u] show ?thesis .
    qed
    with i(1) u0 show ?thesis by blast
  next
    case False
    from b1(4) obtain i where i: "i < MAX_NUM_KEYS" "key_eq (keys_to_send b1 ! i) k"
      by (auto simp: resident_def)
    have u0: "\<forall>j<MAX_NUM_KEYS. key_eq (keys_to_send b ! j) k \<longrightarrow> j = i"
      using False by (auto simp: resident_def)
    have "\<exists>b'. cycles K keymap u (take n ps) b = Inr b' \<and> key_eq (keys_to_send b' ! i) k \<and>
           (\<forall>j<MAX_NUM_KEYS. key_eq (keys_to_send b' ! j) k \<longrightarrow> j = i)" if "0 < n" for n
    proof -
      from that obtain m where n: "n = Suc m" by (cases n) auto
      have "cycles K keymap u (take n ps) b = cycles K keymap u (take m qs) b1"
        by (simp add: n ps cycles_Cons[OF b1(1)])
      with stays[OF b1(2,3) assms(3) i k hq[of m], of K u] show ?thesis by simp
    qed
    with i(1) u0 show ?thesis by blast
  qed
  have noop: "\<forall>bd. resident bd k \<longrightarrow> try_place_key k bd = (False, bd)"
    using k by (simp add: try_place_key_resident)
  from stable noop show ?thesis by (rule conjI)
qed

theorem slot_stability_witness:
  "(\<exists>b'. cycles teensy demo_keymap stale
           (take 1 [held [(1, 2), (4, 1)], held [(0, 0), (1, 2)], held [(1, 2), (1, 6)]]) six_keys_down = Inr b' \<and>
      key_eq (keys_to_send b' ! 2) (Key1 12)) \<and>
   (\<exists>b'. cycles teensy demo_keymap stale
           (take 3 [held [(1, 2), (4, 1)], held [(0, 0), (1, 2)], held [(1, 2), (1, 6)]]) six_keys_down = Inr b' \<and>
      key_eq (keys_to_send b' ! 2) (Key1 12) \<and>
      \<not> key_eq (keys_to_send b' ! 0) (Key1 12)) \<and>
   resident six_keys_down (Key1 12) \<and>
   try_place_key (Key1 12) six_keys_down = (False, six_keys_down)"
proof -
  let ?ps = "[held [(1, 2), (4, 1)], held [(0, 0), (1, 2)], held [(1, 2), (1, 6)]]"
  have ne: "?ps \<noteq> []" by simp
  have h: "\<forall>pins\<in>set ?ps. \<exists>k'\<in>set (ordinary_pressed demo_keymap pins). key_eq (Key1 12) k'"
    by code_simp
  have two: "(2::nat) < MAX_NUM_KEYS" "(0::nat) < MAX_NUM_KEYS" by (simp_all add: MAX_NUM_KEYS_def)
  have k: "key_eq (keys_to_send six_keys_down ! 2) (Key1 12)"
    by (simp add: six_keys_down(3) key_eq_refl)
  have r: "resident six_keys_down (Key1 12)"
    unfolding resident_def using two(1) k by blast
  note st = slot_stability[OF six_keys_down(1,2) modifiers_known_demo ne h, of teensy stale]
  from st have noop: "try_place_key (Key1 12) six_keys_down = (False, six_keys_down)"
    using r by blast
  from st obtain i where i: "i < MAX_NUM_KEYS"
    "\<forall>j<MAX_NUM_KEYS. key_eq (keys_to_send six_keys_down ! j) (Key1 12) \<longrightarrow> j = i"
    "\<forall>n. 0 < n \<and> n \<le> length ?ps \<longrightarrow>
        (\<exists>b'. cycles teensy demo_keymap stale (take n ?ps) six_keys_down = Inr b' \<and>
           key_eq (keys_to_send b' ! i) (Key1 12) \<and>
           (\<forall>j<MAX_NUM_KEYS. key_eq (keys_to_send b' ! j) (Key1 12) \<longrightarrow> j = i))"
    by blast
  from i(2) two(1) k have i2: "i = 2" by blast
  from i(3)[rule_format, of 1] i(3)[rule_format, of 3] two(2) r noop show ?thesis
    unfolding i2 by auto
qed

subsection \<open>C4: release detection\<close>

text \<open>
  Claim C4. Let slot \<open>i\<close> hold a key at the start of a cycle, and let no ordinary key
  that the scan keeps be equal to it. Then \<^verbatim>\<open>remove_released_keys\<close> records the key once
  in \<^verbatim>\<open>just_released_keys\<close> (among the \<^verbatim>\<open>num_keys_released\<close> entries it writes, and in
  the whole array), makes the slot a dummy key and its code \<^verbatim>\<open>KEY_DUMMY\<close>. Placement starts
  from the board that the release phase returns and leaves the record alone; at the end
  of the cycle every ordinary key kept by the scan is in a slot, and slot \<open>i\<close> is empty
  with a neutral code or holds one of these keys.
\<close>

theorem release_detection:
  assumes "wf_board b" "no_duplicates b" "modifiers_known keymap"
    and "i < MAX_NUM_KEYS" "\<not> is_dummy (keys_to_send b ! i)"
    and "\<forall>k'\<in>set (ordinary_pressed keymap pins). \<not> key_eq (keys_to_send b ! i) k'"
  shows "\<exists>b3 b1 b'.
     scan_keys K keymap pins (begin_cycle u b) = Inr b3 \<and>
     remove_released_keys u b3 = Inr b1 \<and>
     b' = set_media (fold place_slot [0..<MAX_NUM_KEYS] b1) \<and>
     update K keymap u pins b = Inr b' \<and>
     filter (key_eq (keys_to_send b ! i)) (take (num_keys_released b1) (just_released_keys b1))
       = [keys_to_send b ! i] \<and>
     filter (key_eq (keys_to_send b ! i)) (just_released_keys b1) = [keys_to_send b ! i] \<and>
     num_keys_released b1 \<le> MAX_NUM_KEYS \<and>
     is_dummy (keys_to_send b1 ! i) \<and>
     codes_to_send b1 ! i = KEY_DUMMY \<and>
     just_released_keys b' = just_released_keys b1 \<and>
     num_keys_released b' = num_keys_released b1 \<and>
     (\<forall>k\<in>set (ordinary_pressed keymap pins). resident b' k) \<and>
     (is_dummy (keys_to_send b' ! i) \<and> codes_to_send b' ! i = KEY_DUMMY \<or>
      keys_to_send b' ! i \<in> set (ordinary_pressed keymap pins))"
proof -
  let ?k = "keys_to_send b ! i"
  from cycle[OF assms(1,3), of K pins u] obtain b3 b1 b' where
    c: "scan_keys K keymap pins (begin_cycle u b) = Inr b3"
       "remove_released_keys u b3 = Inr b1"
       "update K keymap u pins b = Inr b'" "scanned keymap pins u b b3" "resolved u b3 b1 b'"
    by blast
  from c(4) have ks: "keys_to_send b3 = keys_to_send b"
    and jr3: "just_released_keys b3 = replicate MAX_NUM_KEYS (Key0 u)"
    by (simp_all add: scanned_def)
  have nd3: "no_duplicates b3" using assms(2) by (simp add: no_duplicates_keys[OF ks])
  have rel: "released b3 i" using released_iff[OF c(4) assms(4)] assms(5,6) by simp
  let ?rs = "filter (released b3) [0..<MAX_NUM_KEYS]"
  from c(5) have e: "b' = set_media (fold place_slot [0..<MAX_NUM_KEYS] b1)"
    and jr1: "just_released_keys b1 = map (\<lambda>j. keys_to_send b3 ! j) ?rs @ drop (length ?rs) (just_released_keys b3)"
    and n1: "num_keys_released b1 = length ?rs"
    and k1: "keys_to_send b1 ! i = (if released b3 i then Key0 u else keys_to_send b3 ! i)"
    and c1: "codes_to_send b1 ! i = (if released b3 i then KEY_DUMMY else codes_to_send b3 ! i)"
    and sf: "same_frame b1 b'" and sw: "slotwise b1 b'"
    using assms(4) by (simp_all add: resolved_def)
  have once: "filter (key_eq ?k) (map (\<lambda>j. keys_to_send b3 ! j) ?rs) = [?k]"
    using released_once[OF nd3 assms(4) rel] by (simp add: ks)
  have t: "take (num_keys_released b1) (just_released_keys b1) = map (\<lambda>j. keys_to_send b3 ! j) ?rs"
    by (simp add: jr1 n1)
  have pad: "filter (key_eq ?k) (drop (length ?rs) (just_released_keys b3)) = []"
    using assms(5) by (auto simp: jr3 filter_empty_conv dest: key_eq_dummy)
  have le: "num_keys_released b1 \<le> MAX_NUM_KEYS"
    using length_filter_le[of "released b3" "[0..<MAX_NUM_KEYS]"] by (simp add: n1)
  have d1: "is_dummy (keys_to_send b1 ! i)" "codes_to_send b1 ! i = KEY_DUMMY"
    using rel by (simp_all add: k1 c1)
  have fin: "is_dummy (keys_to_send b' ! i) \<and> codes_to_send b' ! i = KEY_DUMMY \<or>
      keys_to_send b' ! i \<in> set (ordinary_pressed keymap pins)"
  proof (cases "is_dummy (keys_to_send b' ! i)")
    case True
    from sw assms(4) have "codes_to_send b' ! i = KEY_DUMMY"
      by (cases rule: slotwiseD) (use True d1 in auto)
    with True show ?thesis by simp
  next
    case False
    from filled_slot[OF c(4,5) assms(4) False] assms(6) show ?thesis by blast
  qed
  have res: "\<forall>k\<in>set (ordinary_pressed keymap pins). resident b' k"
    using pressed_all_resident[OF c(4,5) assms(2)] by blast
  have fr: "just_released_keys b' = just_released_keys b1" "num_keys_released b' = num_keys_released b1"
    using sf by (simp_all add: same_frame_def)
  show ?thesis
    using c(1,2,3) e once t pad le d1 fr res fin
    by (intro exI[of _ b3] exI[of _ b1] exI[of _ b']) (simp add: jr1)
qed

theorem release_detection_witness:
  "\<exists>b3 b1 b'.
     scan_keys teensy demo_keymap one_replaced (begin_cycle stale six_keys_down) = Inr b3 \<and>
     remove_released_keys stale b3 = Inr b1 \<and>
     update teensy demo_keymap stale one_replaced six_keys_down = Inr b' \<and>
     filter (key_eq (Key1 10)) (just_released_keys b1) = [Key1 10] \<and>
     is_dummy (keys_to_send b1 ! 0) \<and> codes_to_send b1 ! 0 = KEY_DUMMY \<and>
     just_released_keys b' = just_released_keys b1 \<and>
     resident b' (Key1 16) \<and>
     keys_to_send b' ! 0 = Key1 16"
proof -
  have i: "(0::nat) < MAX_NUM_KEYS" by (simp add: MAX_NUM_KEYS_def)
  have k: "keys_to_send six_keys_down ! 0 = Key1 10" by (simp add: six_keys_down(3))
  have nd: "\<not> is_dummy (keys_to_send six_keys_down ! 0)" unfolding k by code_simp
  have op: "ordinary_pressed demo_keymap one_replaced = [Key1 11, Key1 12, Key1 13, Key1 14, Key1 15, Key1 16]"
    by code_simp
  have h: "\<forall>k'\<in>set (ordinary_pressed demo_keymap one_replaced). \<not> key_eq (keys_to_send six_keys_down ! 0) k'"
    unfolding k op by (simp add: key_eq_def Key1_def)
  from release_detection[OF six_keys_down(1,2) modifiers_known_demo i nd h, of teensy stale]
  obtain b3 b1 b' where r:
     "scan_keys teensy demo_keymap one_replaced (begin_cycle stale six_keys_down) = Inr b3"
     "remove_released_keys stale b3 = Inr b1"
     "update teensy demo_keymap stale one_replaced six_keys_down = Inr b'"
     "filter (key_eq (keys_to_send six_keys_down ! 0)) (just_released_keys b1) = [keys_to_send six_keys_down ! 0]"
     "is_dummy (keys_to_send b1 ! 0)" "codes_to_send b1 ! 0 = KEY_DUMMY"
     "just_released_keys b' = just_released_keys b1"
     "\<forall>k\<in>set (ordinary_pressed demo_keymap one_replaced). resident b' k"
    by blast
  have "map_sum id keys_to_send (update teensy demo_keymap stale one_replaced six_keys_down)
     = Inr [Key1 16, Key1 11, Key1 12, Key1 13, Key1 14, Key1 15]"
    by code_simp
  from this[unfolded r(3)] have k0: "keys_to_send b' ! 0 = Key1 16" by simp
  from r(8) have "resident b' (Key1 16)" by (simp add: op)
  with r(1-7) k0 show ?thesis unfolding k by blast
qed

subsection \<open>C5: the invariant of the output buffer\<close>

text \<open>
  Claim C5. On the two tables of keyboard.h, with values of the macros of the Teensy core
  (which the repository does not contain) that are not negative and have a non-zero low
  byte: after
  \<^verbatim>\<open>init\<close> every slot holds a dummy key if and only if its code is \<open>KEY_DUMMY\<close>, and no key
  that is not a dummy is equal (\<^verbatim>\<open>operator==\<close>) to the key of another slot; a cycle that
  starts from a board with these two properties returns and ends in a board that has
  them; so does every sequence of cycles after \<^verbatim>\<open>init\<close>.
\<close>

theorem state_invariant:
  assumes "\<forall>name. 0 \<le> K name \<and> K name mod 256 \<noteq> 0"
    and "keymap = at (KEYS K v) \<or> keymap = at (KEYS_SPECIAL K v)"
  shows "(wf_board b0 \<longrightarrow>
            wf_board (init u b0) \<and> empty_iff_neutral (init u b0) \<and> no_duplicates (init u b0)) \<and>
         (wf_board b \<and> empty_iff_neutral b \<and> no_duplicates b \<longrightarrow>
            (\<exists>b'. update K keymap u pins b = Inr b' \<and>
               wf_board b' \<and> empty_iff_neutral b' \<and> no_duplicates b')) \<and>
         (wf_board b0 \<longrightarrow>
            (\<exists>b'. cycles K keymap u ps (init u b0) = Inr b' \<and>
               wf_board b' \<and> empty_iff_neutral b' \<and> no_duplicates b'))"
proof -
  from assms(1) have nn: "\<forall>name. 0 \<le> K name" by simp
  from assms(2) have mk: "modifiers_known keymap"
    using modifiers_known_tables[OF nn, of v] by auto
  from assms(2) have cs: "codes_sendable keymap"
    using codes_sendable_tables[OF assms(1), of v] by auto
  have i: "wf_board (init u b0) \<and> empty_iff_neutral (init u b0) \<and> no_duplicates (init u b0)"
    if "wf_board b0"
    using init_invariant[OF that, of u] by (simp add: slot_invariant_iff)
  have c: "\<exists>b'. update K keymap u pins b = Inr b' \<and>
               wf_board b' \<and> empty_iff_neutral b' \<and> no_duplicates b'"
    if "wf_board b \<and> empty_iff_neutral b \<and> no_duplicates b"
  proof -
    from that have inv: "slot_invariant b" "neutral_slots_empty b"
      by (simp_all add: slot_invariant_iff)
    from cycle_invariant[OF inv(1) mk, of K u pins] inv(2) cs
    show ?thesis unfolding slot_invariant_iff by blast
  qed
  have s: "\<exists>b'. cycles K keymap u ps (init u b0) = Inr b' \<and>
               wf_board b' \<and> empty_iff_neutral b' \<and> no_duplicates b'"
    if "wf_board b0"
  proof -
    from i[OF that] have inv: "slot_invariant (init u b0)" "neutral_slots_empty (init u b0)"
      by (simp_all add: slot_invariant_iff)
    from cycles_invariant[OF inv(1) mk, of K u ps] inv(2) cs
    show ?thesis unfolding slot_invariant_iff by blast
  qed
  from i c s show ?thesis by blast
qed

theorem state_invariant_witness:
  "(\<forall>name. 0 \<le> keylayouts_sample name \<and> keylayouts_sample name mod 256 \<noteq> 0) \<and>
   wf_board power_on \<and>
   (\<exists>b'. cycles keylayouts_sample (at (KEYS keylayouts_sample stale)) stale [three_keys]
            (init stale power_on) = Inr b' \<and>
      keys_to_send b' = [Key2 0xF01E 0xF03A, Key2 0xF00F 0xF052, Key3 0xF004 KEY_DUMMY 0xF02C,
                         Key0 stale, Key0 stale, Key0 stale] \<and>
      codes_to_send b' = [30, 15, 4, 0, 0, 0] \<and>
      wf_board b' \<and> empty_iff_neutral b' \<and> no_duplicates b' \<and>
      (\<exists>b''. update keylayouts_sample (at (KEYS keylayouts_sample stale)) stale two_keys_fn2 b' = Inr b'' \<and>
         keys_to_send b'' = [Key3 0xF014 KEY_DUMMY 0xF05F, Key0 stale, Key3 0xF004 KEY_DUMMY 0xF02C,
                             Key0 stale, Key0 stale, Key0 stale] \<and>
         codes_to_send b'' = [95, 0, 4, 0, 0, 0] \<and>
         wf_board b'' \<and> empty_iff_neutral b'' \<and> no_duplicates b'')) \<and>
   empty_iff_neutral (init stale power_on) \<and>
   (\<exists>b'. cycles keylayouts_sample (at (KEYS_SPECIAL keylayouts_sample stale)) stale [three_keys]
            (init stale power_on) = Inr b' \<and>
      codes_to_send b' = [58, 15, 4, 0, 0, 0] \<and>
      wf_board b' \<and> empty_iff_neutral b' \<and> no_duplicates b')"
proof -
  let ?S = "at (KEYS_SPECIAL keylayouts_sample stale)"
  let ?K = keylayouts_sample
  let ?T = "at (KEYS keylayouts_sample stale)"
  have K: "\<forall>name. 0 \<le> ?K name \<and> ?K name mod 256 \<noteq> 0"
    by (simp add: keylayouts_sample_def)
  have T: "?T = at (KEYS ?K stale) \<or> ?T = at (KEYS_SPECIAL ?K stale)" by simp
  note t = state_invariant[OF K T]
  from t[where ?b0.0 = power_on and u = stale and ps = "[three_keys]"] wf_board_power_on obtain b' where
    b': "cycles ?K ?T stale [three_keys] (init stale power_on) = Inr b'"
      "wf_board b'" "empty_iff_neutral b'" "no_duplicates b'"
    by blast
  from t[where b = b' and u = stale and pins = two_keys_fn2] b'(2,3,4) obtain b'' where
    b'': "update ?K ?T stale two_keys_fn2 b' = Inr b''"
      "wf_board b''" "empty_iff_neutral b''" "no_duplicates b''"
    by blast
  have "map_sum id keys_to_send (cycles ?K ?T stale [three_keys] (init stale power_on))
      = Inr [Key2 0xF01E 0xF03A, Key2 0xF00F 0xF052, Key3 0xF004 KEY_DUMMY 0xF02C,
             Key0 stale, Key0 stale, Key0 stale]"
    "map_sum id codes_to_send (cycles ?K ?T stale [three_keys] (init stale power_on))
      = Inr [30, 15, 4, 0, 0, 0]"
    by code_simp+
  from this[unfolded b'(1)] have k1: "keys_to_send b' =
      [Key2 0xF01E 0xF03A, Key2 0xF00F 0xF052, Key3 0xF004 KEY_DUMMY 0xF02C,
       Key0 stale, Key0 stale, Key0 stale]" "codes_to_send b' = [30, 15, 4, 0, 0, 0]"
    by simp_all
  have "map_sum id keys_to_send
      (cycles ?K ?T stale [three_keys, two_keys_fn2] (init stale power_on))
      = Inr [Key3 0xF014 KEY_DUMMY 0xF05F, Key0 stale, Key3 0xF004 KEY_DUMMY 0xF02C,
             Key0 stale, Key0 stale, Key0 stale]"
    "map_sum id codes_to_send
      (cycles ?K ?T stale [three_keys, two_keys_fn2] (init stale power_on))
      = Inr [95, 0, 4, 0, 0, 0]"
    by code_simp+
  moreover have "cycles ?K ?T stale [three_keys, two_keys_fn2] (init stale power_on) = Inr b''"
    using b'(1) b''(1) by (auto simp: cycles_def split: sum.splits)
  ultimately have k2: "keys_to_send b'' =
      [Key3 0xF014 KEY_DUMMY 0xF05F, Key0 stale, Key3 0xF004 KEY_DUMMY 0xF02C,
       Key0 stale, Key0 stale, Key0 stale]" "codes_to_send b'' = [95, 0, 4, 0, 0, 0]"
    by simp_all
  have S: "?S = at (KEYS ?K stale) \<or> ?S = at (KEYS_SPECIAL ?K stale)" by simp
  note s = state_invariant[OF K S]
  from s[where ?b0.0 = power_on and u = stale and ps = "[three_keys]"] wf_board_power_on
  obtain c' where
    c': "cycles ?K ?S stale [three_keys] (init stale power_on) = Inr c'"
      "wf_board c'" "empty_iff_neutral c'" "no_duplicates c'"
    by blast
  have "map_sum id codes_to_send (cycles ?K ?S stale [three_keys] (init stale power_on))
      = Inr [58, 15, 4, 0, 0, 0]"
    by code_simp
  from this[unfolded c'(1)] have k3: "codes_to_send c' = [58, 15, 4, 0, 0, 0]" by simp
  from t[where ?b0.0 = power_on and u = stale] wf_board_power_on
  have i: "empty_iff_neutral (init stale power_on)" by blast
  from K wf_board_power_on b' b'' k1 k2 c' k3 i show ?thesis by blast
qed

subsection \<open>C6: more ordinary keys than slots\<close>

text \<open>
  Claim C6. Let a cycle find more than \<^verbatim>\<open>MAX_NUM_KEYS\<close> ordinary keys pressed, no two of
  them equal under \<^verbatim>\<open>operator==\<close> (their pairs of primary and secondary code differ).
  Then the cycle ends without a fault and with every array at its size; all six slots
  are occupied, each by one of the first six ordinary keys of the scan; an ordinary key
  is in a slot exactly if it is one of the first six; and \<^verbatim>\<open>num_keys_pressed\<close> counts
  every ordinary key, the dropped ones too.
\<close>

theorem capacity_ceiling:
  assumes "wf_board b" "no_duplicates b" "modifiers_known keymap"
    and os: "os = filter ordinary (pressed keymap pins)"
    and more: "MAX_NUM_KEYS < length os"
    and dist: "distinct (map (\<lambda>k. (code k, second k)) os)"
  shows "\<exists>b'. update K keymap u pins b = Inr b' \<and> wf_board b' \<and>
     (\<forall>l<MAX_NUM_KEYS. \<not> is_dummy (keys_to_send b' ! l) \<and>
        (\<exists>n<MAX_NUM_KEYS. key_eq (keys_to_send b' ! l) (os ! n))) \<and>
     (\<forall>n<length os. resident b' (os ! n) \<longleftrightarrow> n < MAX_NUM_KEYS) \<and>
     num_keys_pressed b' = length os \<and>
     curr_pressed_keys b' = take MAX_NUM_KEYS os"
proof -
  let ?op = "ordinary_pressed keymap pins"
  let ?S = "{..<MAX_NUM_KEYS}"
  from cycle[OF assms(1,3), of K pins u] obtain b3 b1 b' where
    c: "update K keymap u pins b = Inr b'" "scanned keymap pins u b b3" "resolved u b3 b1 b'"
    by blast
  have op: "?op = take MAX_NUM_KEYS os" by (simp add: ordinary_pressed_def os)
  have lop: "length ?op = MAX_NUM_KEYS" using more by (simp add: op)
  have nth: "?op ! n = os ! n" if "n < MAX_NUM_KEYS" for n using that by (simp add: op)
  from c(2) lop have cu3: "curr_pressed_keys b3 = ?op"
    and n3: "num_keys_pressed b3 = length os"
    by (simp_all add: scanned_def os)
  from c(3) have wf': "wf_board b'" and sf: "same_frame b1 b'" and fp: "from_pressed b'"
    and cu1: "curr_pressed_keys b1 = curr_pressed_keys b3"
    and n1: "num_keys_pressed b1 = num_keys_pressed b3"
    by (simp_all add: resolved_def)
  from sf cu1 cu3 n1 n3 have cu': "curr_pressed_keys b' = ?op" and n': "num_keys_pressed b' = length os"
    by (simp_all add: same_frame_def)
  have nd_os: "\<not> is_dummy (os ! n)" if "n < length os" for n
  proof -
    from that have "os ! n \<in> set (pressed keymap pins)"
      using nth_mem[OF that] by (simp add: os)
    then show ?thesis by (rule pressed_not_dummy)
  qed
  have first: "resident b' (os ! n)" if "n < MAX_NUM_KEYS" for n
  proof -
    from that lop have "?op ! n \<in> set ?op" by simp
    from pressed_all_resident[OF c(2,3) assms(2) this] show ?thesis by (simp add: nth[OF that])
  qed
  then have "\<forall>n\<in>?S. \<exists>l. l < MAX_NUM_KEYS \<and> key_eq (keys_to_send b' ! l) (os ! n)"
    by (auto simp: resident_def)
  then obtain g where g: "\<And>n. n \<in> ?S \<Longrightarrow> g n < MAX_NUM_KEYS \<and> key_eq (keys_to_send b' ! g n) (os ! n)"
    by metis
  have "inj_on g ?S"
  proof (rule inj_onI)
    fix m n assume mn: "m \<in> ?S" "n \<in> ?S" "g m = g n"
    from g[OF mn(1)] g[OF mn(2)] mn(3) have "key_eq (os ! m) (os ! n)"
      by (metis key_eq_sym key_eq_trans)
    with dist mn(1,2) more show "m = n" by (auto intro: distinct_keysD)
  qed
  moreover have "g ` ?S \<subseteq> ?S" using g by auto
  ultimately have surj: "g ` ?S = ?S" by (intro endo_inj_surj) auto
  have slots: "\<not> is_dummy (keys_to_send b' ! l) \<and> (\<exists>n<MAX_NUM_KEYS. key_eq (keys_to_send b' ! l) (os ! n))"
    if "l < MAX_NUM_KEYS" for l
  proof -
    from that surj obtain n where n: "n \<in> ?S" "l = g n" by (metis imageE lessThan_iff)
    with g[OF n(1)] have e: "n < MAX_NUM_KEYS" "key_eq (keys_to_send b' ! l) (os ! n)" by simp_all
    from e(1) more have "\<not> is_dummy (os ! n)" by (intro nd_os) simp
    with e show ?thesis by (auto dest: key_eq_dummy)
  qed
  have dropped: "\<not> resident b' (os ! n)" if "n < length os" "\<not> n < MAX_NUM_KEYS" for n
  proof
    assume "resident b' (os ! n)"
    then obtain l where l: "l < MAX_NUM_KEYS" "key_eq (keys_to_send b' ! l) (os ! n)"
      by (auto simp: resident_def)
    from slots[OF l(1)] obtain m where m: "m < MAX_NUM_KEYS" "key_eq (keys_to_send b' ! l) (os ! m)"
      by blast
    from l(2) m(2) have "key_eq (os ! m) (os ! n)" by (metis key_eq_sym key_eq_trans)
    with dist m(1) more that(1) have "m = n" by (auto intro: distinct_keysD)
    with m(1) that(2) show False by simp
  qed
  from c(1) wf' slots first dropped n' cu' op show ?thesis by auto
qed

theorem capacity_ceiling_witness:
  "\<exists>b'. update teensy demo_keymap stale seven_keys (init stale power_on) = Inr b' \<and> wf_board b' \<and>
     \<not> is_dummy (keys_to_send b' ! 5) \<and>
     resident b' (Key1 15) \<and> \<not> resident b' (Key1 16) \<and>
     num_keys_pressed b' = 7"
proof -
  let ?os = "filter ordinary (pressed demo_keymap seven_keys)"
  have os: "?os = [Key1 10, Key1 11, Key1 12, Key1 13, Key1 14, Key1 15, Key1 16]"
    by code_simp
  have inv: "slot_invariant (init stale power_on)"
    by (rule init_invariant[OF wf_board_power_on])
  then have wf: "wf_board (init stale power_on)" and nd: "no_duplicates (init stale power_on)"
    by (simp_all add: slot_invariant_def)
  have more: "MAX_NUM_KEYS < length ?os" by (simp add: os MAX_NUM_KEYS_def)
  have dist: "distinct (map (\<lambda>k. (code k, second k)) ?os)" by (simp add: os Key1_def)
  from capacity_ceiling[OF wf nd modifiers_known_demo refl more dist, of teensy stale]
  obtain b' where b': "update teensy demo_keymap stale seven_keys (init stale power_on) = Inr b'"
    "wf_board b'"
    "\<forall>l<MAX_NUM_KEYS. \<not> is_dummy (keys_to_send b' ! l) \<and>
        (\<exists>n<MAX_NUM_KEYS. key_eq (keys_to_send b' ! l) (?os ! n))"
    "\<forall>n<length ?os. resident b' (?os ! n) \<longleftrightarrow> n < MAX_NUM_KEYS"
    "num_keys_pressed b' = length ?os"
    by blast
  have "(5::nat) < MAX_NUM_KEYS" by (simp add: MAX_NUM_KEYS_def)
  with b'(3) have 1: "\<not> is_dummy (keys_to_send b' ! 5)" by blast
  from b'(4)[rule_format, of 5] have 2: "resident b' (Key1 15)"
    by (simp add: os MAX_NUM_KEYS_def)
  from b'(4)[rule_format, of 6] have 3: "\<not> resident b' (Key1 16)"
    by (simp add: os MAX_NUM_KEYS_def)
  from b'(5) have 4: "num_keys_pressed b' = 7" by (simp add: os)
  from b'(1,2) 1 2 3 4 show ?thesis by blast
qed

subsection \<open>C7: the media code\<close>

text \<open>
  Claim C7. At the end of a cycle the media code is 0 if no media key was found
  pressed; otherwise, for the media key found last, it is the secondary code if the key
  has one and FN is held, else the primary code. It is the third value handed to the
  USB keyboard object. FN2 has no part in it: two states of the matrix that differ only
  in FN2 keys give the same media code.
\<close>

theorem media_resolution:
  assumes "wf_board b" "modifiers_known keymap"
  shows "\<exists>b'. update K keymap u pins b = Inr b' \<and>
     current_media b' =
       (if filter is_media (pressed keymap pins) = [] then 0
        else if has_second (last (filter is_media (pressed keymap pins))) \<and>
                (\<exists>k\<in>set (pressed keymap pins). is_fn k)
             then second (last (filter is_media (pressed keymap pins)))
             else code (last (filter is_media (pressed keymap pins)))) \<and>
     snd (snd (send_keys b')) = current_media b' \<and>
     (\<forall>pins'. filter (\<lambda>k. \<not> is_fn2 k) (pressed keymap pins') =
               filter (\<lambda>k. \<not> is_fn2 k) (pressed keymap pins) \<longrightarrow>
        (\<exists>b''. update K keymap u pins' b = Inr b'' \<and> current_media b'' = current_media b'))"
proof -
  from cycle_media[OF assms, of K u pins] obtain b' where
    b': "update K keymap u pins b = Inr b'"
     "current_media b' =
       (if filter is_media (pressed keymap pins) = [] then 0
        else if has_second (last (filter is_media (pressed keymap pins))) \<and>
                (\<exists>k\<in>set (pressed keymap pins). is_fn k)
             then second (last (filter is_media (pressed keymap pins)))
             else code (last (filter is_media (pressed keymap pins))))"
    by blast
  have "\<exists>b''. update K keymap u pins' b = Inr b'' \<and> current_media b'' = current_media b'"
    if h: "filter (\<lambda>k. \<not> is_fn2 k) (pressed keymap pins') =
           filter (\<lambda>k. \<not> is_fn2 k) (pressed keymap pins)" for pins'
  proof -
    from cycle_media[OF assms, of K u pins'] obtain b'' where
      b'': "update K keymap u pins' b = Inr b''"
       "current_media b'' =
         (if filter is_media (pressed keymap pins') = [] then 0
          else if has_second (last (filter is_media (pressed keymap pins'))) \<and>
                  (\<exists>k\<in>set (pressed keymap pins'). is_fn k)
               then second (last (filter is_media (pressed keymap pins')))
               else code (last (filter is_media (pressed keymap pins'))))"
      by blast
    from b''(2) b'(2) have "current_media b'' = current_media b'"
      unfolding media_code_fn2[OF h] by simp
    with b''(1) show ?thesis by blast
  qed
  with b' show ?thesis by (simp add: send_keys_def)
qed

theorem media_resolution_witness:
  "\<exists>b'. update teensy demo_keymap stale (held [(0, 3), (4, 1), (4, 2)]) (init stale power_on) = Inr b' \<and>
     current_media b' = 0xE4E2 \<and>
     snd (snd (send_keys b')) = 0xE4E2 \<and>
     (\<exists>b''. update teensy demo_keymap stale (held [(0, 3), (4, 1)]) (init stale power_on) = Inr b'' \<and>
        current_media b'' = 0xE4E2)"
proof -
  let ?pins = "held [(0, 3), (4, 1), (4, 2)]"
  let ?pins' = "held [(0, 3), (4, 1)]"
  have wf: "wf_board (init stale power_on)" by (rule wf_board_init[OF wf_board_power_on])
  have h: "filter (\<lambda>k. \<not> is_fn2 k) (pressed demo_keymap ?pins') =
           filter (\<lambda>k. \<not> is_fn2 k) (pressed demo_keymap ?pins)"
    by code_simp
  have v: "(if filter is_media (pressed demo_keymap ?pins) = [] then 0
        else if has_second (last (filter is_media (pressed demo_keymap ?pins))) \<and>
                (\<exists>k\<in>set (pressed demo_keymap ?pins). is_fn k)
             then second (last (filter is_media (pressed demo_keymap ?pins)))
             else code (last (filter is_media (pressed demo_keymap ?pins)))) = 0xE4E2"
    by code_simp
  from media_resolution[OF wf modifiers_known_demo, of teensy stale ?pins] h
  show ?thesis unfolding v by metis
qed

subsection \<open>C8: the last media key wins\<close>

text \<open>
  Claim C8. When media keys are pressed, the scan ends with \<^verbatim>\<open>pressed_media\<close> equal to
  the one at the last position in the order of the scan: no pressed media key stands in
  a later row, or in the same row at a later column. It is the last media key of the
  list of pressed keys.
\<close>

theorem media_last_write_wins:
  assumes "wf_board b" "modifiers_known keymap"
    and "r2 < NUM_ROWS" "c2 < NUM_COLS" "pins r2 c2" "is_media (keymap r2 c2)"
    and "\<forall>r<NUM_ROWS. \<forall>c<NUM_COLS.
           pins r c \<and> is_media (keymap r c) \<longrightarrow> r < r2 \<or> (r = r2 \<and> c \<le> c2)"
  shows "\<exists>b3. scan_keys K keymap pins (begin_cycle u b) = Inr b3 \<and>
           pressed_media b3 = keymap r2 c2 \<and>
           pressed_media b3 = last (filter is_media (pressed keymap pins))"
proof -
  from scan_cycle'[OF assms(1,2), of K pins u] obtain b3 where
    b3: "scan_keys K keymap pins (begin_cycle u b) = Inr b3" "scanned keymap pins u b b3"
    by blast
  from last_pressed[where P = is_media and keymap = keymap and pins = pins and ?r2.0 = r2 and ?c2.0 = c2,
      OF assms(3,4,5,6) is_media_not_dummy[OF assms(6)] assms(7)]
  have l: "filter is_media (pressed keymap pins) \<noteq> []"
    "last (filter is_media (pressed keymap pins)) = keymap r2 c2"
    by simp_all
  from b3(2) have "pressed_media b3 =
       (if filter media_key (pressed keymap pins) = [] then Key0 u
        else last (filter media_key (pressed keymap pins)))"
    by (simp add: scanned_def)
  with l have "pressed_media b3 = keymap r2 c2"
    by (simp add: media_key_pressed[OF assms(2)])
  with b3(1) l(2) show ?thesis by simp
qed

theorem media_last_write_wins_witness:
  "\<exists>b3. scan_keys teensy demo_keymap (held [(0, 2), (0, 3)]) (begin_cycle stale (init stale power_on)) = Inr b3 \<and>
     pressed_media b3 = Key2 0xE4EA 0xE4E2"
proof -
  let ?pins = "held [(0, 2), (0, 3)]"
  have wf: "wf_board (init stale power_on)" by (rule wf_board_init[OF wf_board_power_on])
  have r: "(0::nat) < NUM_ROWS" and c: "(3::nat) < NUM_COLS"
    by (simp_all add: NUM_ROWS_def NUM_COLS_def)
  have p: "?pins 0 3" by (simp add: held_def)
  have m: "is_media (demo_keymap 0 3)" by code_simp
  have l: "\<forall>r<NUM_ROWS. \<forall>c<NUM_COLS.
           ?pins r c \<and> is_media (demo_keymap r c) \<longrightarrow> r < 0 \<or> (r = 0 \<and> c \<le> 3)"
    by (auto simp: held_def)
  have k: "demo_keymap 0 3 = Key2 0xE4EA 0xE4E2" by (simp add: demo_keymap_def)
  from media_last_write_wins[OF wf modifiers_known_demo r c p m l, of teensy stale]
  show ?thesis unfolding k by blast
qed

subsection \<open>C9: equality of keys\<close>

text \<open>
  Claim C9. Two keys are equal under \<^verbatim>\<open>operator==\<close> exactly when their primary and
  their secondary codes are equal; \<^verbatim>\<open>operator!=\<close> is its negation. The tertiary code
  is not compared: keys that differ in it alone are equal, so placement does nothing
  for a key when a slot holds a key with the same primary and secondary code, and
  release detection keeps a slot when such a key is among the pressed ones.
\<close>

theorem key_equality:
  "(key_eq a b \<longleftrightarrow> code a = code b \<and> second a = second b) \<and>
   (key_neq a b \<longleftrightarrow> \<not> key_eq a b) \<and>
   (code a = code b \<and> second a = second b \<and> third a \<noteq> third b \<longrightarrow> key_eq a b \<and> a \<noteq> b) \<and>
   (\<not> is_dummy k \<and> i < MAX_NUM_KEYS \<and>
      code (keys_to_send bd ! i) = code k \<and> second (keys_to_send bd ! i) = second k
      \<longrightarrow> try_place_key k bd = (False, bd)) \<and>
   (j < MAX_NUM_KEYS \<and>
      code (curr_pressed_keys bd ! j) = code (keys_to_send bd ! i) \<and>
      second (curr_pressed_keys bd ! j) = second (keys_to_send bd ! i)
      \<longrightarrow> release_slot u i bd = Inr bd)"
proof (intro conjI impI)
  show "key_eq a b \<longleftrightarrow> code a = code b \<and> second a = second b"
    by (simp add: key_eq_def)
  show "key_neq a b \<longleftrightarrow> \<not> key_eq a b"
    by (simp add: key_neq_def)
  show "key_eq a b" if "code a = code b \<and> second a = second b \<and> third a \<noteq> third b"
    using that by (simp add: key_eq_def)
  show "a \<noteq> b" if "code a = code b \<and> second a = second b \<and> third a \<noteq> third b"
    using that by auto
  show "try_place_key k bd = (False, bd)"
    if h: "\<not> is_dummy k \<and> i < MAX_NUM_KEYS \<and>
      code (keys_to_send bd ! i) = code k \<and> second (keys_to_send bd ! i) = second k"
  proof -
    from h have "resident bd k" by (auto simp: resident_def key_eq_def)
    with h show ?thesis by (simp add: try_place_key_resident)
  qed
  show "release_slot u i bd = Inr bd"
    if h: "j < MAX_NUM_KEYS \<and>
      code (curr_pressed_keys bd ! j) = code (keys_to_send bd ! i) \<and>
      second (curr_pressed_keys bd ! j) = second (keys_to_send bd ! i)"
  proof -
    from h have "key_found (keys_to_send bd ! i) (curr_pressed_keys bd) [0..<MAX_NUM_KEYS]"
      by (auto simp: key_found_iff key_eq_def intro!: bexI[of _ j])
    then show ?thesis by (simp add: release_slot_def Let_def)
  qed
qed

theorem key_equality_witness:
  "key_eq (Key3 4 5 6) (Key3 4 5 9) \<and> Key3 4 5 6 \<noteq> Key3 4 5 9 \<and>
   try_place_key (Key3 4 5 9) dedup_board = (False, dedup_board) \<and>
   release_slot stale 0 dedup_board = Inr dedup_board"
proof -
  have k: "code (Key3 4 5 6) = code (Key3 4 5 9) \<and> second (Key3 4 5 6) = second (Key3 4 5 9) \<and>
      third (Key3 4 5 6) \<noteq> third (Key3 4 5 9)"
    by (simp add: Key3_def)
  have p: "\<not> is_dummy (Key3 4 5 9) \<and> (0::nat) < MAX_NUM_KEYS \<and>
      code (keys_to_send dedup_board ! 0) = code (Key3 4 5 9) \<and>
      second (keys_to_send dedup_board ! 0) = second (Key3 4 5 9)"
    by (simp add: Key3_def is_dummy_def KEY_DUMMY_def MAX_NUM_KEYS_def dedup_board_def)
  have r: "(0::nat) < MAX_NUM_KEYS \<and>
      code (curr_pressed_keys dedup_board ! 0) = code (keys_to_send dedup_board ! 0) \<and>
      second (curr_pressed_keys dedup_board ! 0) = second (keys_to_send dedup_board ! 0)"
    by (simp add: Key3_def MAX_NUM_KEYS_def dedup_board_def)
  from key_equality[of "Key3 4 5 6" "Key3 4 5 9" "Key3 4 5 9" 0 dedup_board 0 stale] k p r
  show ?thesis by blast
qed

text \<open>
  The resolution rule as the specification words it (section 4.3): the tertiary code
  first, under layer 2; then the secondary code, under layer 1; else the primary code.

\<close>

subsection \<open>C10: the index into the modifier table\<close>

text \<open>
  Claim C10. Take either table of keyboard.h, with non-negative values for the Teensy
  macros. A pressed key for which the scan calls \<^verbatim>\<open>translate_modifier\<close> (it is not FN,
  not FN2, and its code is negative) has a code from -6 to -1, so the index
  \<^verbatim>\<open>-1 * modifier - 1\<close> is from 0 to 5 and the lookup is inside \<^verbatim>\<open>MODIFIER_MAP\<close>. FN and
  FN2 never reach the lookup, which would be outside the array for them. The scan of a
  cycle ends without an access outside an array.
\<close>

theorem modifier_lookup_in_bounds:
  assumes "\<forall>name. 0 \<le> K name" "wf_board b" "T = KEYS K v \<or> T = KEYS_SPECIAL K v"
  shows "(\<forall>k\<in>set (pressed (at T) pins). translated k \<longrightarrow>
            - 6 \<le> code k \<and> code k \<le> - 1 \<and>
            0 \<le> modifier_index (code k) \<and> modifier_index (code k) < int NUM_MODIFIERS \<and>
            translate_modifier K (code k) = Inr (MODIFIER_MAP K ! nat (modifier_index (code k)))) \<and>
         (\<forall>k. is_fn k \<or> is_fn2 k \<longrightarrow>
            \<not> translated k \<and> translate_modifier K (code k) = Inl Modifier_map_overrun) \<and>
         (\<exists>b3. scan_keys K (at T) pins (begin_cycle u b) = Inr b3)"
proof (intro conjI ballI allI impI)
  have mk: "modifiers_known (at T)"
    using assms(3) modifiers_known_tables[OF assms(1), of v] by auto
  fix k assume k: "k \<in> set (pressed (at T) pins)" "translated k"
  from translated_range[OF k(2) pressed_known[OF mk k(1)]]
  show "- 6 \<le> code k" "code k \<le> - 1" by simp_all
  then show "0 \<le> modifier_index (code k)" "modifier_index (code k) < int NUM_MODIFIERS"
    "translate_modifier K (code k) = Inr (MODIFIER_MAP K ! nat (modifier_index (code k)))"
    by (simp_all add: modifier_index_def NUM_MODIFIERS_def translate_modifier_def)
next
  fix k assume "is_fn k \<or> is_fn2 k"
  then show "\<not> translated k" "translate_modifier K (code k) = Inl Modifier_map_overrun"
    by (auto simp: translated_def is_fn_def is_fn2_def KEY_FN_def KEY_FN2_def
        translate_modifier_def modifier_index_def NUM_MODIFIERS_def)
next
  have mk: "modifiers_known (at T)"
    using assms(3) modifiers_known_tables[OF assms(1), of v] by auto
  from scan_cycle'[OF assms(2) mk, of K pins u]
  show "\<exists>b3. scan_keys K (at T) pins (begin_cycle u b) = Inr b3" by blast
qed

theorem modifier_lookup_in_bounds_witness:
  "translate_modifier teensy (code (Key1 KEY_RSHIFT)) = Inr (MODIFIER_MAP teensy ! 5) \<and>
   translate_modifier teensy (code (Key1 KEY_FN)) = Inl Modifier_map_overrun \<and>
   translate_modifier teensy (code (Key1 KEY_FN2)) = Inl Modifier_map_overrun \<and>
   (\<exists>b3. scan_keys teensy (at (KEYS teensy stale)) (held [(3, 0), (4, 0), (4, 1), (4, 2)])
           (begin_cycle stale (init stale power_on)) = Inr b3)"
proof -
  let ?pins = "held [(3, 0), (4, 0), (4, 1), (4, 2)]"
  have K: "\<forall>name. 0 \<le> teensy name" by (simp add: teensy_def)
  have wf: "wf_board (init stale power_on)" by (rule wf_board_init[OF wf_board_power_on])
  have p: "Key1 KEY_RSHIFT \<in> set (pressed (at (KEYS teensy stale)) ?pins)" by code_simp
  have t: "translated (Key1 KEY_RSHIFT)" by code_simp
  have f: "is_fn (Key1 KEY_FN)" "is_fn2 (Key1 KEY_FN2)" by code_simp+
  have i: "nat (modifier_index (code (Key1 KEY_RSHIFT))) = 5" by code_simp
  from modifier_lookup_in_bounds[OF K wf disjI1[OF refl], of stale ?pins stale] p t f
  show ?thesis unfolding i[symmetric] by blast
qed

end
